theory Spec2Isabelle
  imports Main "HOL-Library.Sublist"
begin

section \<open>Request messages (services/ModelMessageService.ts)\<close>

text \<open>
  A \<open>ChatCompletionMessageParam\<close> is a role together with a content that is either a plain
  string or an ordered list of parts. The object spread \<open>{ ...messages[i] }\<close> of the source
  is a shallow copy, which is the same value here.
\<close>

datatype role = System | User | Assistant | Tool | Developer | Function

datatype content_part = TextPart string | ImagePart string

datatype message_content = Text string | Parts "content_part list"

record message =
  role :: role
  content :: message_content

record model =
  model_id :: string
  model_provider :: string

definition needStrictlyInterleaveUserAndAssistantMessages :: "model \<Rightarrow> bool" where
  "needStrictlyInterleaveUserAndAssistantMessages m \<longleftrightarrow> model_id m = ''deepseek-reasoner''"

text \<open>
  The \<open>for\<close> loop of \<open>interleaveUserAndAssistantMessages\<close>: \<open>i\<close> is the loop index and
  \<open>processedMessages\<close> the array built so far. \<open>messages ! (i - 1)\<close> is read only under
  \<open>i > 0\<close>, and \<open>messages ! i\<close> only under \<open>i < length messages\<close>.
\<close>

function interleave_loop :: "message list \<Rightarrow> nat \<Rightarrow> message list \<Rightarrow> message list" where
  "interleave_loop messages i processedMessages =
     (if i < length messages then
        (let currentMessage = messages ! i;
             pushed =
               (if i > 0 \<and> role currentMessage = role (messages ! (i - 1)) then
                  (let emptyMessageRole = (if role currentMessage = User then Assistant else User)
                   in processedMessages @ [\<lparr>role = emptyMessageRole, content = Text ''''\<rparr>])
                else processedMessages)
         in interleave_loop messages (i + 1) (pushed @ [currentMessage]))
      else processedMessages)"
  by pat_completeness auto
termination
  by (relation "measure (\<lambda>(messages, i, processedMessages). length messages - i)") auto

declare interleave_loop.simps [simp del]

definition interleaveUserAndAssistantMessages :: "message list \<Rightarrow> message list" where
  "interleaveUserAndAssistantMessages messages =
     (if length messages = 0 then [] else interleave_loop messages 0 [])"

definition processReqMessages :: "model \<Rightarrow> message list \<Rightarrow> message list" where
  "processReqMessages m reqMessages =
     (if \<not> needStrictlyInterleaveUserAndAssistantMessages m then reqMessages
      else interleaveUserAndAssistantMessages reqMessages)"

text \<open>
  The same pass as the specification words it: between every two consecutive messages of
  equal role stands one empty message, of role assistant after a user message and of role
  user otherwise. \<open>separated_after p ms\<close> is the output for \<open>ms\<close> when \<open>p\<close> precedes it.
\<close>

definition separator_for :: "role \<Rightarrow> message" where
  "separator_for r = \<lparr>role = (if r = User then Assistant else User), content = Text ''''\<rparr>"

fun separated_after :: "message \<Rightarrow> message list \<Rightarrow> message list" where
  "separated_after p [] = []"
| "separated_after p (m # ms) =
     (if role m = role p then [separator_for (role m), m] else [m]) @ separated_after m ms"

fun with_separators :: "message list \<Rightarrow> message list" where
  "with_separators [] = []"
| "with_separators (m # ms) = m # separated_after m ms"

section \<open>Citations (store/messageBlock.ts)\<close>

text \<open>
  JavaScript values that may be \<open>undefined\<close> are options. A string is falsy when it is
  missing or empty; \<open>a || b\<close> is \<open>a\<close> when \<open>a\<close> is truthy and \<open>b\<close> otherwise;
  \<open>xs.map((x, index) => ...)\<close> is \<open>map_index\<close>. \<open>str_of\<close> reads a string that a
  truthiness test has found present.
\<close>

definition truthy :: "string option \<Rightarrow> bool" where
  "truthy s = (case s of None \<Rightarrow> False | Some v \<Rightarrow> v \<noteq> [])"

definition js_or :: "string option \<Rightarrow> string option \<Rightarrow> string option" where
  "js_or a b = (if truthy a then a else b)"

definition str_of :: "string option \<Rightarrow> string" where
  "str_of s = (case s of None \<Rightarrow> [] | Some v \<Rightarrow> v)"

definition map_index :: "('a \<Rightarrow> nat \<Rightarrow> 'b) \<Rightarrow> 'a list \<Rightarrow> 'b list" where
  "map_index f xs = map (\<lambda>(index, x). f x index) (enumerate 0 xs)"

datatype citation_type = websearch | knowledge

record Citation =
  cit_number :: nat
  cit_url :: "string option"
  cit_title :: "string option"
  cit_hostname :: "string option"
  cit_content :: "string option"
  cit_showFavicon :: bool
  cit_type :: citation_type

text \<open>The vendors' result shapes, one per case of the \<open>switch\<close> on the source.\<close>

record web_source =
  uri :: "string option"
  web_title :: "string option"

record grounding_chunk =
  web :: "web_source option"

record grounding_metadata =
  groundingChunks :: "grounding_chunk list option"

record url_citation =
  uc_url :: string
  uc_title :: string

record annotation =
  ann_url_citation :: url_citation

record link_result =
  lr_link :: "string option"
  lr_url :: "string option"
  lr_title :: "string option"

record search_result =
  sr_url :: string
  sr_title :: string
  sr_content :: string

record provider_response =
  pr_results :: "search_result list option"

record knowledge_reference =
  sourceUrl :: string
  kr_content :: string

text \<open>
  A web search response is its source tag with the results cast to the shape of that
  source. \<open>OTHER_SOURCE\<close> stands for every source the \<open>switch\<close> has no case for.
\<close>

datatype web_search_response =
    GEMINI "grounding_metadata option"
  | OPENAI "annotation list option"
  | OPENROUTER "string list option"
  | PERPLEXITY "string list option"
  | ZHIPU "link_result list option"
  | HUNYUAN "link_result list option"
  | WEBSEARCH "provider_response option"
  | OTHER_SOURCE

record CitationMessageBlock =
  cb_response :: "web_search_response option"
  cb_knowledge :: "knowledge_reference list option"

definition or_empty :: "'a list option \<Rightarrow> 'a list" where
  "or_empty r = (case r of None \<Rightarrow> [] | Some xs \<Rightarrow> xs)"

definition gemini_citation :: "grounding_chunk \<Rightarrow> nat \<Rightarrow> Citation" where
  "gemini_citation chunk index =
     \<lparr>cit_number = index + 1,
      cit_url = js_or (case web chunk of None \<Rightarrow> None | Some w \<Rightarrow> uri w) (Some []),
      cit_title = (case web chunk of None \<Rightarrow> None | Some w \<Rightarrow> web_title w),
      cit_hostname = None, cit_content = None, cit_showFavicon = False, cit_type = websearch\<rparr>"

text \<open>
  \<open>new URL(u).hostname\<close> is the parameter \<open>url_hostname\<close>: \<open>None\<close> where the
  constructor throws, which the source catches and answers with the raw string.
\<close>

definition openai_citation :: "(string \<Rightarrow> string option) \<Rightarrow> annotation \<Rightarrow> nat \<Rightarrow> Citation" where
  "openai_citation url_hostname a index =
     (let urlCitation = ann_url_citation a;
          hostname =
            (if uc_title urlCitation \<noteq> [] then None
             else (case url_hostname (uc_url urlCitation) of
                     Some h \<Rightarrow> Some h
                   | None \<Rightarrow> Some (uc_url urlCitation)))
      in \<lparr>cit_number = index + 1, cit_url = Some (uc_url urlCitation),
          cit_title = Some (uc_title urlCitation), cit_hostname = hostname,
          cit_content = None, cit_showFavicon = True, cit_type = websearch\<rparr>)"

definition url_list_citation :: "(string \<Rightarrow> string option) \<Rightarrow> string \<Rightarrow> nat \<Rightarrow> Citation" where
  "url_list_citation url_hostname u index =
     (case url_hostname u of
        Some hostname \<Rightarrow>
          \<lparr>cit_number = index + 1, cit_url = Some u, cit_title = None,
           cit_hostname = Some hostname, cit_content = None, cit_showFavicon = True,
           cit_type = websearch\<rparr>
      | None \<Rightarrow>
          \<lparr>cit_number = index + 1, cit_url = Some u, cit_title = None,
           cit_hostname = Some u, cit_content = None, cit_showFavicon = True,
           cit_type = websearch\<rparr>)"

definition link_citation :: "link_result \<Rightarrow> nat \<Rightarrow> Citation" where
  "link_citation result index =
     \<lparr>cit_number = index + 1, cit_url = js_or (lr_link result) (lr_url result),
      cit_title = lr_title result, cit_hostname = None, cit_content = None,
      cit_showFavicon = True, cit_type = websearch\<rparr>"

definition websearch_citation :: "search_result \<Rightarrow> nat \<Rightarrow> Citation" where
  "websearch_citation result index =
     \<lparr>cit_number = index + 1, cit_url = Some (sr_url result),
      cit_title = Some (sr_title result), cit_hostname = None,
      cit_content = Some (sr_content result), cit_showFavicon = True, cit_type = websearch\<rparr>"

definition knowledge_citation :: "knowledge_reference \<Rightarrow> nat \<Rightarrow> Citation" where
  "knowledge_citation result index =
     \<lparr>cit_number = index + 1, cit_url = Some (sourceUrl result),
      cit_title = Some (sourceUrl result), cit_hostname = None,
      cit_content = Some (kr_content result), cit_showFavicon = True, cit_type = knowledge\<rparr>"

fun web_citations :: "(string \<Rightarrow> string option) \<Rightarrow> web_search_response \<Rightarrow> Citation list" where
  "web_citations url_hostname (GEMINI results) =
     (case results of
        None \<Rightarrow> []
      | Some metadata \<Rightarrow> map_index gemini_citation (or_empty (groundingChunks metadata)))"
| "web_citations url_hostname (OPENAI results) =
     map_index (openai_citation url_hostname) (or_empty results)"
| "web_citations url_hostname (OPENROUTER results) =
     map_index (url_list_citation url_hostname) (or_empty results)"
| "web_citations url_hostname (PERPLEXITY results) =
     map_index (url_list_citation url_hostname) (or_empty results)"
| "web_citations url_hostname (ZHIPU results) = map_index link_citation (or_empty results)"
| "web_citations url_hostname (HUNYUAN results) = map_index link_citation (or_empty results)"
| "web_citations url_hostname (WEBSEARCH results) =
     (case results of
        None \<Rightarrow> []
      | Some r \<Rightarrow> map_index websearch_citation (or_empty (pr_results r)))"
| "web_citations url_hostname OTHER_SOURCE = []"

text \<open>
  \<open>formattedCitations\<close> is the local variable of that name as it stands before step 4:
  the web citations, then the knowledge base references pushed behind them.
\<close>

definition formattedCitations :: "(string \<Rightarrow> string option) \<Rightarrow> CitationMessageBlock \<Rightarrow> Citation list" where
  "formattedCitations url_hostname block =
     (case cb_response block of None \<Rightarrow> [] | Some r \<Rightarrow> web_citations url_hostname r) @
     (case cb_knowledge block of
        None \<Rightarrow> []
      | Some ks \<Rightarrow> if length ks > 0 then map_index knowledge_citation ks else [])"

text \<open>
  Step 4. The filter callback reads and grows \<open>urlSet\<close> from one element to the next, so
  the set is threaded through the recursion.
\<close>

fun dedup_filter :: "string set \<Rightarrow> Citation list \<Rightarrow> Citation list" where
  "dedup_filter urlSet [] = []"
| "dedup_filter urlSet (citation # rest) =
     (case cit_url citation of
        None \<Rightarrow> dedup_filter urlSet rest
      | Some u \<Rightarrow>
          if u = [] \<or> u \<in> urlSet then dedup_filter urlSet rest
          else citation # dedup_filter (insert u urlSet) rest)"

definition renumber :: "Citation list \<Rightarrow> Citation list" where
  "renumber cs = map_index (\<lambda>citation index. citation\<lparr>cit_number := index + 1\<rparr>) cs"

definition formatCitationsFromBlock ::
  "(string \<Rightarrow> string option) \<Rightarrow> CitationMessageBlock option \<Rightarrow> Citation list" where
  "formatCitationsFromBlock url_hostname block =
     (case block of
        None \<Rightarrow> []
      | Some b \<Rightarrow> renumber (dedup_filter {} (formattedCitations url_hostname b)))"

text \<open>
  Deduplication as the specification words it: of a list of keys, the first occurrence of
  each stays and the later ones go.
\<close>

fun keep_first :: "'a list \<Rightarrow> 'a list" where
  "keep_first [] = []"
| "keep_first (x # xs) = x # keep_first (filter (\<lambda>y. y \<noteq> x) xs)"

definition fresh_url :: "string set \<Rightarrow> string option \<Rightarrow> bool" where
  "fresh_url urlSet u = (case u of None \<Rightarrow> False | Some v \<Rightarrow> v \<noteq> [] \<and> v \<notin> urlSet)"

section \<open>Streaming completions (providers/AiProvider/OpenAIProvider.ts)\<close>

subsection \<open>Responses, chunks and events\<close>

datatype js_error = Error string | TypeError string

record usage =
  prompt_tokens :: nat
  completion_tokens :: nat
  total_tokens :: nat

text \<open>
  A non-streaming response. \<open>comp_time\<close> is what \<open>new Date().getTime()\<close> returns when
  \<open>processStream\<close> handles the response; the clock is an input of the model.
\<close>

record completion_message =
  msg_content :: "string option"

record completion_choice =
  choice_message :: "completion_message option"

record completion =
  comp_choices :: "completion_choice list"
  comp_usage :: "usage option"
  comp_time :: int

text \<open>
  A chunk of a streaming response. \<open>ch_choice\<close> is \<open>chunk.choices[0]\<close>. \<open>currentTime\<close> is
  the clock read while the chunk is handled, and \<open>paused\<close> what
  \<open>window.keyv.get(EVENT_NAMES.CHAT_COMPLETION_PAUSED)\<close> answers when the chunk arrives.
\<close>

record delta =
  reasoning_content :: "string option"
  reasoning :: "string option"
  thinking :: "string option"
  d_content :: "string option"
  annotations :: "annotation list option"

record chunk_choice =
  ch_delta :: "delta option"
  finish_reason :: "string option"

record search_info =
  search_results :: "link_result list option"

record chunk =
  ch_choice :: "chunk_choice option"
  ch_usage :: "usage option"
  ch_citations :: "string list option"
  ch_web_search :: "link_result list option"
  ch_search_info :: "search_info option"
  currentTime :: int
  paused :: bool

datatype sdk_response = Completion completion | Stream "chunk list"

record metrics =
  m_completion_tokens :: "nat option"
  m_time_completion_millsec :: int
  m_time_first_token_millsec :: int
  m_time_thinking_millsec :: "int option"

text \<open>What \<open>onChunk\<close> receives, in the order of the calls.\<close>

datatype chunk_event =
    LLM_RESPONSE_CREATED
  | THINKING_DELTA string int
  | THINKING_COMPLETE string int
  | TEXT_DELTA string
  | TEXT_COMPLETE string
  | LLM_WEB_SEARCH_COMPLETE web_search_response
  | MCP_TOOL_EVENT string
  | BLOCK_COMPLETE "usage option" metrics

subsection \<open>The state of one request\<close>

text \<open>
  \<open>closure\<close> holds the variables that \<open>completions\<close> declares and both inner functions
  share; \<open>locals\<close> those that every call of \<open>processStream\<close> declares anew.
\<close>

record MCPToolResponse =
  tr_id :: string
  tr_status :: string

record closure =
  hasReasoningContent :: bool
  lastChunk :: string
  time_first_token_millsec :: int
  time_first_token_millsec_delta :: int
  time_first_content_millsec :: int
  reqMessages :: "message list"
  toolResponses :: "MCPToolResponse list"

record locals =
  content_acc :: string
  thinkingContent :: string
  final_time_completion_millsec_delta :: int
  final_time_thinking_millsec_delta :: int
  lastUsage :: "usage option"
  isFirstChunk :: bool
  isFirstThinkingChunk :: bool

definition initial_locals :: locals where
  "initial_locals =
     \<lparr>content_acc = [], thinkingContent = [], final_time_completion_millsec_delta = 0,
      final_time_thinking_millsec_delta = 0, lastUsage = None, isFirstChunk = True,
      isFirstThinkingChunk = True\<rparr>"

text \<open>
  What \<open>parseAndCallTools\<close> (utils/mcp-tools, a collaborator) hands back: the tool result
  messages, the \<open>toolResponses\<close> array as it leaves it, and the events it sent to
  \<open>onChunk\<close>.
\<close>

record tool_outcome =
  toolResults :: "message list"
  tool_toolResponses :: "MCPToolResponse list"
  tool_events :: "chunk_event list"

text \<open>
  The constants of one request and its collaborators. \<open>sdk_create\<close> is
  \<open>this.sdk.chat.completions.create\<close> as a function of the messages, the other parameters
  of the call being the same in every round; it may throw.
\<close>

record env =
  streamOutput :: bool
  enableWebSearch :: bool
  webSearchProviderId :: "string option"
  assistant_model :: "model option"
  default_model :: model
  start_time_millsec :: int
  isZhipuModel :: "model option \<Rightarrow> bool"
  isHunyuanSearchModel :: "model option \<Rightarrow> bool"
  convertLinks :: "string \<Rightarrow> bool \<Rightarrow> string"
  convertLinksToOpenRouter :: "string \<Rightarrow> bool \<Rightarrow> string"
  convertLinksToZhipu :: "string \<Rightarrow> bool \<Rightarrow> string"
  convertLinksToHunyuan :: "string \<Rightarrow> link_result list \<Rightarrow> bool \<Rightarrow> string"
  parseAndCallTools :: "string \<Rightarrow> MCPToolResponse list \<Rightarrow> nat \<Rightarrow> tool_outcome"
  sdk_create :: "message list \<Rightarrow> js_error + sdk_response"

definition the_model :: "env \<Rightarrow> model" where
  "the_model e = (case assistant_model e of Some m \<Rightarrow> m | None \<Rightarrow> default_model e)"

definition isEnabledWebSearch :: "env \<Rightarrow> bool" where
  "isEnabledWebSearch e \<longleftrightarrow> enableWebSearch e \<or> truthy (webSearchProviderId e)"

definition assistant_provider :: "env \<Rightarrow> string option" where
  "assistant_provider e = map_option model_provider (assistant_model e)"

subsection \<open>One chunk\<close>

definition delta_of :: "chunk \<Rightarrow> delta option" where
  "delta_of ch = (case ch_choice ch of None \<Rightarrow> None | Some c \<Rightarrow> ch_delta c)"

definition finishReason_of :: "chunk \<Rightarrow> string option" where
  "finishReason_of ch = (case ch_choice ch of None \<Rightarrow> None | Some c \<Rightarrow> finish_reason c)"

definition reasoningContent_of :: "chunk \<Rightarrow> string option" where
  "reasoningContent_of ch =
     (case delta_of ch of None \<Rightarrow> None | Some d \<Rightarrow> js_or (reasoning_content d) (reasoning d))"

definition isReasoningJustDone :: "closure \<Rightarrow> delta option \<Rightarrow> bool \<times> closure" where
  "isReasoningJustDone c dl =
     (case dl of
        None \<Rightarrow> (False, c)
      | Some d \<Rightarrow>
          if \<not> truthy (d_content d) then (False, c)
          else
            (let combinedChunks = lastChunk c @ str_of (d_content d);
                 c1 = c\<lparr>lastChunk := str_of (d_content d)\<rparr>
             in if sublist ''###Response'' combinedChunks \<or> d_content d = Some ''</think>''
                then (True, c1)
                else
                  (let c2 = (if truthy (reasoning_content d) \<or> truthy (reasoning d) \<or>
                               truthy (thinking d)
                             then c1\<lparr>hasReasoningContent := True\<rparr> else c1)
                   in if hasReasoningContent c2 then (True, c2) else (False, c2))))"

text \<open>Lines 616 to 633: the first reasoning token latches the first-token time.\<close>

definition latch_first_token :: "env \<Rightarrow> closure \<times> locals \<Rightarrow> chunk \<Rightarrow> closure \<times> locals" where
  "latch_first_token e s ch =
     (case s of (c, l) \<Rightarrow>
        if time_first_token_millsec c = 0 \<and> isFirstThinkingChunk l \<and>
           truthy (reasoningContent_of ch)
        then (c\<lparr>time_first_token_millsec := currentTime ch,
                time_first_token_millsec_delta := currentTime ch - start_time_millsec e\<rparr>,
              l\<lparr>isFirstThinkingChunk := False\<rparr>)
        else (c, l))"

text \<open>Lines 634 to 644: reasoning text is accumulated and sent on.\<close>

definition reasoning_delta :: "closure \<times> locals \<Rightarrow> chunk \<Rightarrow> closure \<times> locals \<times> chunk_event list" where
  "reasoning_delta s ch =
     (case s of (c, l) \<Rightarrow>
        if truthy (reasoningContent_of ch) then
          (let reasoningContent = str_of (reasoningContent_of ch);
               thinking_time = currentTime ch - time_first_token_millsec c
           in (c\<lparr>hasReasoningContent := True\<rparr>,
               l\<lparr>thinkingContent := thinkingContent l @ reasoningContent\<rparr>,
               [THINKING_DELTA reasoningContent thinking_time]))
        else (c, l, []))"

text \<open>Lines 646 to 661: the end of the reasoning.\<close>

definition reasoning_done :: "closure \<times> locals \<Rightarrow> chunk \<Rightarrow> closure \<times> locals \<times> chunk_event list" where
  "reasoning_done s ch =
     (case s of (c, l) \<Rightarrow>
        (case isReasoningJustDone c (delta_of ch) of (done, c1) \<Rightarrow>
           if done \<and> time_first_content_millsec c1 = 0 then
             (let final_thinking = currentTime ch - time_first_token_millsec c1
              in (c1\<lparr>time_first_content_millsec := currentTime ch,
                     hasReasoningContent := False\<rparr>,
                  l\<lparr>final_time_thinking_millsec_delta := final_thinking,
                    thinkingContent := [], isFirstThinkingChunk := True\<rparr>,
                  [THINKING_COMPLETE (thinkingContent l) final_thinking]))
           else (c1, l, [])))"

text \<open>
  Lines 665 to 683: with web search enabled the text goes through the link converter of
  the vendor. \<open>chunk.search_info.search_results\<close> is read without a guard, so a chunk
  without \<open>search_info\<close> raises a TypeError there.
\<close>

definition converted_content :: "env \<Rightarrow> locals \<Rightarrow> chunk \<Rightarrow> delta \<Rightarrow> js_error + string" where
  "converted_content e l ch d =
     (let text = str_of (d_content d) in
      if enableWebSearch e then
        (if annotations d \<noteq> None then Inr (convertLinks e text (isFirstChunk l))
         else if assistant_provider e = Some ''openrouter''
           then Inr (convertLinksToOpenRouter e text (isFirstChunk l))
         else if isZhipuModel e (assistant_model e)
           then Inr (convertLinksToZhipu e text (isFirstChunk l))
         else if isHunyuanSearchModel e (assistant_model e) then
           (case ch_search_info ch of
              None \<Rightarrow> Inl (TypeError ''Cannot read properties of undefined (reading search_results)'')
            | Some si \<Rightarrow>
                Inr (convertLinksToHunyuan e text (or_empty (search_results si)) (isFirstChunk l)))
         else Inr text)
      else Inr text)"

text \<open>Lines 664 to 695: answer text is accumulated and sent on.\<close>

definition text_content ::
  "env \<Rightarrow> closure \<times> locals \<Rightarrow> chunk \<Rightarrow> js_error + closure \<times> locals \<times> chunk_event list" where
  "text_content e s ch =
     (case s of (c, l) \<Rightarrow>
        (case delta_of ch of
           None \<Rightarrow> Inr (c, l, [])
         | Some d \<Rightarrow>
             if \<not> truthy (d_content d) then Inr (c, l, [])
             else
               (case converted_content e l ch d of
                  Inl err \<Rightarrow> Inl err
                | Inr text \<Rightarrow>
                    (let first = (isFirstChunk l \<and> time_first_token_millsec c = 0 \<and>
                                  time_first_token_millsec_delta c = 0);
                         c1 = (if first
                               then c\<lparr>time_first_token_millsec := currentTime ch,
                                       time_first_token_millsec_delta :=
                                         currentTime ch - start_time_millsec e\<rparr>
                               else c);
                         l1 = (if first then l\<lparr>isFirstChunk := False\<rparr> else l)
                     in Inr (c1, l1\<lparr>content_acc := content_acc l1 @ text\<rparr>, [TEXT_DELTA text])))))"

text \<open>
  Lines 697 to 763: a chunk with a finish reason (\<open>isEmpty\<close> of lodash is true of
  \<open>undefined\<close>, \<open>null\<close> and the empty string) completes the text, records the usage and
  forwards the search results of the vendor.
\<close>

definition web_search_events :: "env \<Rightarrow> chunk \<Rightarrow> chunk_event list" where
  "web_search_events e ch =
     (case delta_of ch of
        None \<Rightarrow> []
      | Some d \<Rightarrow>
          (case annotations d of
             None \<Rightarrow> []
           | Some a \<Rightarrow> [LLM_WEB_SEARCH_COMPLETE (OPENAI (Some a))])) @
     (if assistant_provider e = Some ''perplexity'' then
        (case ch_citations ch of
           None \<Rightarrow> []
         | Some cs \<Rightarrow> [LLM_WEB_SEARCH_COMPLETE (PERPLEXITY (Some cs))])
      else []) @
     (if isEnabledWebSearch e \<and> isZhipuModel e (Some (the_model e)) \<and>
         finishReason_of ch = Some ''stop'' \<and> ch_web_search ch \<noteq> None
      then [LLM_WEB_SEARCH_COMPLETE (ZHIPU (ch_web_search ch))] else []) @
     (if isEnabledWebSearch e \<and> isHunyuanSearchModel e (Some (the_model e)) then
        (case ch_search_info ch of
           None \<Rightarrow> []
         | Some si \<Rightarrow>
             (case search_results si of
                None \<Rightarrow> []
              | Some rs \<Rightarrow> [LLM_WEB_SEARCH_COMPLETE (HUNYUAN (Some rs))]))
      else [])"

definition finish :: "env \<Rightarrow> closure \<times> locals \<Rightarrow> chunk \<Rightarrow> closure \<times> locals \<times> chunk_event list" where
  "finish e s ch =
     (case s of (c, l) \<Rightarrow>
        if truthy (finishReason_of ch) then
          (c,
           l\<lparr>final_time_completion_millsec_delta := currentTime ch - start_time_millsec e,
             lastUsage := (case ch_usage ch of None \<Rightarrow> lastUsage l | Some u \<Rightarrow> Some u)\<rparr>,
           TEXT_COMPLETE (content_acc l) # web_search_events e ch)
        else (c, l, []))"

text \<open>The body of the \<open>for await\<close> loop, after the pause check.\<close>

definition chunk_step ::
  "env \<Rightarrow> closure \<times> locals \<Rightarrow> chunk \<Rightarrow> js_error + closure \<times> locals \<times> chunk_event list" where
  "chunk_step e s ch =
     (case reasoning_delta (latch_first_token e s ch) ch of (c1, l1, ev1) \<Rightarrow>
        (case reasoning_done (c1, l1) ch of (c2, l2, ev2) \<Rightarrow>
           (case text_content e (c2, l2) ch of
              Inl err \<Rightarrow> Inl err
            | Inr (c3, l3, ev3) \<Rightarrow>
                (case finish e (c3, l3) ch of (c4, l4, ev4) \<Rightarrow>
                   Inr (c4, l4, ev1 @ ev2 @ ev3 @ ev4)))))"

text \<open>The \<open>for await\<close> loop over the chunks; a set pause flag leaves the loop.\<close>

fun stream_loop ::
  "env \<Rightarrow> closure \<times> locals \<Rightarrow> chunk list \<Rightarrow> js_error + closure \<times> locals \<times> chunk_event list" where
  "stream_loop e s [] = Inr (fst s, snd s, [])"
| "stream_loop e s (ch # rest) =
     (if paused ch then Inr (fst s, snd s, [])
      else
        (case chunk_step e s ch of
           Inl err \<Rightarrow> Inl err
         | Inr (c1, l1, ev1) \<Rightarrow>
             (case stream_loop e (c1, l1) rest of
                Inl err \<Rightarrow> Inl err
              | Inr (c2, l2, ev2) \<Rightarrow> Inr (c2, l2, ev1 @ ev2))))"

subsection \<open>Rounds\<close>

text \<open>Lines 562 to 581: a non-streaming response is reported at once.\<close>

definition non_streaming :: "env \<Rightarrow> closure \<Rightarrow> sdk_response \<Rightarrow> js_error + closure \<times> chunk_event list" where
  "non_streaming e c stream =
     (case stream of
        Stream chunks \<Rightarrow> Inl (TypeError ''Cannot read properties of undefined (reading 0)'')
      | Completion r \<Rightarrow>
          (let finalMetrics =
                 \<lparr>m_completion_tokens = map_option completion_tokens (comp_usage r),
                  m_time_completion_millsec = comp_time r - start_time_millsec e,
                  m_time_first_token_millsec = 0,
                  m_time_thinking_millsec = None\<rparr>
           in case comp_choices r of
                [] \<Rightarrow> Inl (TypeError ''Cannot read properties of undefined (reading message)'')
              | c0 # _ \<Rightarrow>
                  (let text = (case choice_message c0 of None \<Rightarrow> None | Some m \<Rightarrow> msg_content m)
                   in Inr (c, (if truthy text then [TEXT_COMPLETE (str_of text)] else []) @
                              [BLOCK_COMPLETE (comp_usage r) finalMetrics]))))"

text \<open>
  Lines 503 to 547, the part of \<open>processToolUses\<close> before it calls \<open>processStream\<close>: the
  tools are called, and when one answered, the transcript grows and a new request is sent.
  The third component is \<open>None\<close> when no tool answered, and otherwise what \<open>create\<close>
  returned or threw.
\<close>

definition tool_request ::
  "env \<Rightarrow> closure \<Rightarrow> string \<Rightarrow> nat \<Rightarrow> closure \<times> chunk_event list \<times> (js_error + sdk_response) option" where
  "tool_request e c text idx =
     (let out = parseAndCallTools e text (toolResponses c) idx;
          c1 = c\<lparr>toolResponses := tool_toolResponses out\<rparr>
      in if length (toolResults out) > 0 then
           (let c2 = c1\<lparr>reqMessages :=
                      processReqMessages (the_model e)
                        (reqMessages c1 @ [\<lparr>role = Assistant, content = Text text\<rparr>] @ toolResults out)\<rparr>
            in (c2, tool_events out, Some (sdk_create e (reqMessages c2))))
         else (c1, tool_events out, None))"

text \<open>Lines 771 to 789: the last event of a round, and the reset behind it.\<close>

definition block_complete :: "closure \<Rightarrow> locals \<Rightarrow> chunk_event" where
  "block_complete c l =
     BLOCK_COMPLETE (lastUsage l)
       \<lparr>m_completion_tokens = map_option completion_tokens (lastUsage l),
        m_time_completion_millsec = final_time_completion_millsec_delta l,
        m_time_first_token_millsec = time_first_token_millsec_delta c,
        m_time_thinking_millsec = Some (final_time_thinking_millsec_delta l)\<rparr>"

definition reset_timestamps :: "closure \<Rightarrow> closure" where
  "reset_timestamps c = c\<lparr>time_first_token_millsec := 0, time_first_content_millsec := 0\<rparr>"

text \<open>
  \<open>processStream\<close> and \<open>processToolUses\<close> call each other with no bound on the depth, so
  the function is partial: \<open>None\<close> is a request that never returns. A returned \<open>Inl\<close> is
  the error the promise is rejected with, \<open>Inr\<close> the closure at the end and the events
  sent. \<open>processToolUses\<close> is inlined here and stated on its own below.
\<close>

partial_function (option) processStream ::
  "env \<Rightarrow> closure \<Rightarrow> sdk_response \<Rightarrow> nat \<Rightarrow> (js_error + closure \<times> chunk_event list) option" where
  "processStream e c stream idx =
     (if \<not> streamOutput e then Some (non_streaming e c stream)
      else
        (case stream of
           Completion r \<Rightarrow> Some (Inl (TypeError ''stream is not async iterable''))
         | Stream chunks \<Rightarrow>
             (case stream_loop e (c, initial_locals) chunks of
                Inl err \<Rightarrow> Some (Inl err)
              | Inr (c1, l, evs) \<Rightarrow>
                  (case tool_request e c1 (content_acc l) idx of
                     (c2, tool_evs, None) \<Rightarrow>
                       Some (Inr (reset_timestamps c2, evs @ tool_evs @ [block_complete c2 l]))
                   | (c2, tool_evs, Some (Inl err)) \<Rightarrow> Some (Inl err)
                   | (c2, tool_evs, Some (Inr newStream)) \<Rightarrow>
                       Option.bind (processStream e c2 newStream (idx + 1))
                         (\<lambda>r. case r of
                                Inl err \<Rightarrow> Some (Inl err)
                              | Inr (c3, round_evs) \<Rightarrow>
                                  Some (Inr (reset_timestamps c3,
                                             evs @ tool_evs @ round_evs @ [block_complete c3 l])))))))"

definition processToolUses ::
  "env \<Rightarrow> closure \<Rightarrow> string \<Rightarrow> nat \<Rightarrow> (js_error + closure \<times> chunk_event list) option" where
  "processToolUses e c text idx =
     (case tool_request e c text idx of
        (c2, tool_evs, None) \<Rightarrow> Some (Inr (c2, tool_evs))
      | (c2, tool_evs, Some (Inl err)) \<Rightarrow> Some (Inl err)
      | (c2, tool_evs, Some (Inr newStream)) \<Rightarrow>
          Option.bind (processStream e c2 newStream (idx + 1))
            (\<lambda>r. case r of
                   Inl err \<Rightarrow> Some (Inl err)
                 | Inr (c3, round_evs) \<Rightarrow> Some (Inr (c3, tool_evs @ round_evs))))"

text \<open>
  Lines 455 to 822 of \<open>completions\<close>, from the first request on. \<open>messages0\<close> is
  \<open>reqMessages\<close> as built from the system prompt and the user messages. The abort
  signal is not part of the model: a request here runs until it returns or forever.
\<close>

definition initial_closure :: "env \<Rightarrow> message list \<Rightarrow> closure" where
  "initial_closure e messages0 =
     \<lparr>hasReasoningContent = False, lastChunk = [], time_first_token_millsec = 0,
      time_first_token_millsec_delta = 0, time_first_content_millsec = 0,
      reqMessages = processReqMessages (the_model e) messages0, toolResponses = []\<rparr>"

definition completions ::
  "env \<Rightarrow> message list \<Rightarrow> (js_error + closure \<times> chunk_event list) option" where
  "completions e messages0 =
     (let c0 = initial_closure e messages0 in
      case sdk_create e (reqMessages c0) of
        Inl err \<Rightarrow> Some (Inl err)
      | Inr stream \<Rightarrow>
          Option.bind (processStream e c0 stream 0)
            (\<lambda>r. case r of
                   Inl err \<Rightarrow> Some (Inl err)
                 | Inr (c, evs) \<Rightarrow> Some (Inr (c, LLM_RESPONSE_CREATED # evs))))"

subsection \<open>The validity check of a model\<close>

text \<open>
  \<open>check\<close> sends one fixed request and reports whether the model answered. The SDK is a
  parameter: \<open>checkIsCopilot\<close> may throw, \<open>create\<close> of a non-streaming body returns a
  completion (or nothing) or throws, \<open>create\<close> of a streaming body returns the chunks or
  throws. Whatever is thrown inside the \<open>try\<close> block is caught and returned.
\<close>

record check_body =
  body_model :: string
  body_messages :: "message list"
  body_stream :: bool

record check_sdk =
  checkIsCopilot :: "js_error option"
  create_completion :: "check_body \<Rightarrow> js_error + completion option"
  create_stream :: "check_body \<Rightarrow> js_error + chunk list"

record check_result =
  valid :: bool
  error :: "js_error option"

text \<open>The loop of the streaming branch: \<open>hasContent\<close> is set by a chunk with text.\<close>

definition chunk_has_content :: "chunk \<Rightarrow> bool" where
  "chunk_has_content ch =
     (case delta_of ch of None \<Rightarrow> False | Some d \<Rightarrow> truthy (d_content d))"

fun hasContent_loop :: "bool \<Rightarrow> chunk list \<Rightarrow> bool" where
  "hasContent_loop hasContent [] = hasContent"
| "hasContent_loop hasContent (ch # rest) =
     hasContent_loop (if chunk_has_content ch then True else hasContent) rest"

text \<open>
  The \<open>try\<close> block. \<open>response?.choices[0].message\<close> is \<open>undefined\<close> for a missing
  response, raises a TypeError for an empty \<open>choices\<close>, and is the message of the first
  choice otherwise.
\<close>

definition check_try :: "check_sdk \<Rightarrow> check_body \<Rightarrow> js_error + check_result" where
  "check_try sdk body =
     (case checkIsCopilot sdk of
        Some err \<Rightarrow> Inl err
      | None \<Rightarrow>
          if \<not> body_stream body then
            (case create_completion sdk body of
               Inl err \<Rightarrow> Inl err
             | Inr response \<Rightarrow>
                 (case response of
                    None \<Rightarrow> Inl (Error ''Empty response'')
                  | Some r \<Rightarrow>
                      (case comp_choices r of
                         [] \<Rightarrow> Inl (TypeError ''Cannot read properties of undefined (reading message)'')
                       | c0 # _ \<Rightarrow>
                           (case choice_message c0 of
                              None \<Rightarrow> Inl (Error ''Empty response'')
                            | Some m \<Rightarrow> Inr \<lparr>valid = True, error = None\<rparr>))))
          else
            (case create_stream sdk body of
               Inl err \<Rightarrow> Inl err
             | Inr chunks \<Rightarrow>
                 if hasContent_loop False chunks then Inr \<lparr>valid = True, error = None\<rparr>
                 else Inl (Error ''Empty streaming response'')))"

definition check :: "check_sdk \<Rightarrow> model option \<Rightarrow> bool \<Rightarrow> check_result" where
  "check sdk m stream =
     (case m of
        None \<Rightarrow> \<lparr>valid = False, error = Some (Error ''No model found'')\<rparr>
      | Some md \<Rightarrow>
          (let body = \<lparr>body_model = model_id md,
                       body_messages = [\<lparr>role = User, content = Text ''hi''\<rparr>],
                       body_stream = stream\<rparr>
           in case check_try sdk body of
                Inl err \<Rightarrow> \<lparr>valid = False, error = Some err\<rparr>
              | Inr r \<Rightarrow> r))"

subsection \<open>Inputs of the scenarios\<close>

text \<open>The chunks \<open>{reasoning: r}\<close>, \<open>{content: t}\<close> and \<open>{finish: true}\<close>, handled at time \<open>t\<close>.\<close>

definition no_delta :: delta where
  "no_delta =
     \<lparr>reasoning_content = None, reasoning = None, thinking = None, d_content = None,
      annotations = None\<rparr>"

definition plain_chunk :: "delta \<Rightarrow> string option \<Rightarrow> usage option \<Rightarrow> int \<Rightarrow> chunk" where
  "plain_chunk d fin u t =
     \<lparr>ch_choice = Some \<lparr>ch_delta = Some d, finish_reason = fin\<rparr>, ch_usage = u,
      ch_citations = None, ch_web_search = None, ch_search_info = None, currentTime = t,
      paused = False\<rparr>"

definition reasoning_chunk :: "string \<Rightarrow> int \<Rightarrow> chunk" where
  "reasoning_chunk r t = plain_chunk (no_delta\<lparr>reasoning := Some r\<rparr>) None None t"

definition content_chunk :: "string \<Rightarrow> int \<Rightarrow> chunk" where
  "content_chunk txt t = plain_chunk (no_delta\<lparr>d_content := Some txt\<rparr>) None None t"

definition finish_chunk :: "usage option \<Rightarrow> int \<Rightarrow> chunk" where
  "finish_chunk u t = plain_chunk no_delta (Some ''stop'') u t"

text \<open>
  A request with streaming output and no web search, whose tools never answer and whose
  link converters leave the text alone.
\<close>

definition quiet_env :: env where
  "quiet_env = \<lparr>streamOutput = True, enableWebSearch = False, webSearchProviderId = None,
     assistant_model = Some \<lparr>model_id = ''gpt'', model_provider = ''openai''\<rparr>,
     default_model = \<lparr>model_id = ''gpt'', model_provider = ''openai''\<rparr>,
     start_time_millsec = 100,
     isZhipuModel = (\<lambda>m. False), isHunyuanSearchModel = (\<lambda>m. False),
     convertLinks = (\<lambda>s b. s), convertLinksToOpenRouter = (\<lambda>s b. s),
     convertLinksToZhipu = (\<lambda>s b. s), convertLinksToHunyuan = (\<lambda>s r b. s),
     parseAndCallTools = (\<lambda>s r i. \<lparr>toolResults = [], tool_toolResponses = r, tool_events = []\<rparr>),
     sdk_create = (\<lambda>ms. Inr (Stream []))\<rparr>"

text \<open>A tool executor that answers with one result in every round, on empty streams.\<close>

definition looping_env :: env where
  "looping_env =
     quiet_env\<lparr>parseAndCallTools :=
       (\<lambda>s r i. \<lparr>toolResults = [\<lparr>role = User, content = Text ''tool result''\<rparr>],
                 tool_toolResponses = r, tool_events = []\<rparr>)\<rparr>"

text \<open>
  A request of two rounds: the tools answer in round 0 only, and the second request is
  answered by the stream \<open>round1_chunks\<close>.
\<close>

definition usage0 :: usage where
  "usage0 = \<lparr>prompt_tokens = 10, completion_tokens = 3, total_tokens = 13\<rparr>"

definition usage1 :: usage where
  "usage1 = \<lparr>prompt_tokens = 20, completion_tokens = 7, total_tokens = 27\<rparr>"

definition round0_chunks :: "chunk list" where
  "round0_chunks =
     [reasoning_chunk ''r'' 105, content_chunk ''A'' 107, finish_chunk (Some usage0) 108]"

definition round1_chunks :: "chunk list" where
  "round1_chunks = [content_chunk ''B'' 109, finish_chunk (Some usage1) 110]"

definition two_round_env :: env where
  "two_round_env =
     quiet_env\<lparr>parseAndCallTools :=
       (\<lambda>s r i. if i = 0
                then \<lparr>toolResults = [\<lparr>role = User, content = Text ''tool result''\<rparr>],
                      tool_toolResponses = r @ [\<lparr>tr_id = ''t1'', tr_status = ''done''\<rparr>],
                      tool_events = [MCP_TOOL_EVENT ''t1'']\<rparr>
                else \<lparr>toolResults = [], tool_toolResponses = r, tool_events = []\<rparr>),
       sdk_create := (\<lambda>ms. Inr (Stream (if length ms \<le> 1 then round0_chunks else round1_chunks)))\<rparr>"

definition timestamps :: "closure \<Rightarrow> int \<times> int" where
  "timestamps c = (time_first_token_millsec c, time_first_content_millsec c)"

text \<open>A chunk that carries reasoning text and answer text at once.\<close>

definition both_chunk :: "string \<Rightarrow> string \<Rightarrow> int \<Rightarrow> chunk" where
  "both_chunk r txt t =
     plain_chunk (no_delta\<lparr>reasoning_content := Some r, d_content := Some txt\<rparr>) None None t"

definition buffers :: "closure \<times> locals \<times> chunk_event list \<Rightarrow> string \<times> string" where
  "buffers s = (case s of (c, l, evs) \<Rightarrow> (thinkingContent l, content_acc l))"

text \<open>
  A request of two rounds whose second stream reasons again: the tools answer in round 0
  only, and every further request is answered by \<open>round1_reasoning_chunks\<close>.
\<close>

definition round1_reasoning_chunks :: "chunk list" where
  "round1_reasoning_chunks =
     [reasoning_chunk ''r2'' 120, content_chunk ''B'' 125, finish_chunk (Some usage1) 126]"

definition reasoning_again_env :: env where
  "reasoning_again_env =
     two_round_env\<lparr>sdk_create := (\<lambda>ms. Inr (Stream round1_reasoning_chunks))\<rparr>"

subsection \<open>Readings of an event trace\<close>

text \<open>
  The properties below are stated with these functions on traces and streams. They follow
  the wording of the specification, not the code.
\<close>

fun is_block_complete :: "chunk_event \<Rightarrow> bool" where
  "is_block_complete (BLOCK_COMPLETE u m) = True"
| "is_block_complete ev = False"

fun is_thinking_complete :: "chunk_event \<Rightarrow> bool" where
  "is_thinking_complete (THINKING_COMPLETE t ms) = True"
| "is_thinking_complete ev = False"

text \<open>The text of a thinking-delta event, and nothing for any other event.\<close>

fun thinking_delta_text :: "chunk_event \<Rightarrow> string" where
  "thinking_delta_text (THINKING_DELTA t ms) = t"
| "thinking_delta_text ev = []"

text \<open>
  \<open>thinking_trace buf evs\<close> replays a trace on a reasoning buffer that holds \<open>buf\<close>: a
  thinking-delta appends its text, a thinking-complete must carry exactly the buffer and
  empties it. The result is the buffer at the end, or \<open>None\<close> when some thinking-complete
  carried another text.
\<close>

fun thinking_trace :: "string \<Rightarrow> chunk_event list \<Rightarrow> string option" where
  "thinking_trace buf [] = Some buf"
| "thinking_trace buf (THINKING_DELTA t ms # evs) = thinking_trace (buf @ t) evs"
| "thinking_trace buf (THINKING_COMPLETE t ms # evs) =
     (if t = buf then thinking_trace [] evs else None)"
| "thinking_trace buf (ev # evs) = thinking_trace buf evs"

text \<open>
  The usage of the last chunk, among those handled before a pause, that carries a finish
  reason and a usage; \<open>u\<close> when there is none.
\<close>

fun usage_at_finish :: "usage option \<Rightarrow> chunk list \<Rightarrow> usage option" where
  "usage_at_finish u [] = u"
| "usage_at_finish u (ch # rest) =
     (if paused ch then u
      else usage_at_finish
             (if truthy (finishReason_of ch) \<and> ch_usage ch \<noteq> None then ch_usage ch else u) rest)"

section \<open>Properties of the strict interleaving\<close>

lemma interleave_loop_from:
  "interleave_loop (pre @ p # rest) (Suc (length pre)) acc = acc @ separated_after p rest"
proof (induction rest arbitrary: pre p acc)
  case Nil
  show ?case by (subst interleave_loop.simps) simp
next
  case (Cons m ms)
  have step: "interleave_loop (pre @ p # m # ms) (Suc (length pre)) acc =
      interleave_loop ((pre @ [p]) @ m # ms) (Suc (length (pre @ [p])))
        (acc @ (if role m = role p then [separator_for (role m), m] else [m]))"
    by (subst interleave_loop.simps) (simp add: nth_append separator_for_def Let_def)
  show ?case
    unfolding step Cons.IH by simp
qed

lemma interleave_loop_start:
  "interleave_loop (m # ms) 0 [] = m # separated_after m ms"
proof -
  have "interleave_loop (m # ms) 0 [] =
        interleave_loop ([] @ m # ms) (Suc (length ([]::message list))) [m]"
    by (subst interleave_loop.simps) simp
  then show ?thesis
    unfolding interleave_loop_from by simp
qed

lemma interleave_eq_with_separators:
  "interleaveUserAndAssistantMessages ms = with_separators ms"
  by (cases ms) (simp_all add: interleaveUserAndAssistantMessages_def interleave_loop_start)

lemma processReqMessages_deepseek:
  "model_id m = ''deepseek-reasoner'' \<Longrightarrow> processReqMessages m ms = with_separators ms"
  by (simp add: processReqMessages_def needStrictlyInterleaveUserAndAssistantMessages_def
      interleave_eq_with_separators)

lemma separated_after_adj:
  "distinct_adj (role p # map role (separated_after p ms))"
proof (induction ms arbitrary: p)
  case Nil
  show ?case by simp
next
  case (Cons m ms)
  have tail: "distinct_adj (role m # map role (separated_after m ms))"
    by (rule Cons.IH)
  show ?case
  proof (cases "role m = role p")
    case True
    have "role p \<noteq> role (separator_for (role m))" "role (separator_for (role m)) \<noteq> role m"
      using True by (simp_all add: separator_for_def)
    with tail True show ?thesis by simp
  next
    case False
    with tail show ?thesis by simp
  qed
qed

lemma with_separators_adj: "distinct_adj (map role (with_separators ms))"
proof (cases ms)
  case Nil
  then show ?thesis by simp
next
  case (Cons m ms')
  then show ?thesis using separated_after_adj [of m ms'] by simp
qed

lemma distinct_adj_nth:
  "distinct_adj xs \<Longrightarrow> Suc i < length xs \<Longrightarrow> xs ! i \<noteq> xs ! Suc i"
proof (induction xs arbitrary: i)
  case Nil
  then show ?case by simp
next
  case (Cons x xs)
  show ?case
  proof (cases i)
    case 0
    with Cons.prems show ?thesis by (cases xs) auto
  next
    case (Suc j)
    with Cons.prems have "distinct_adj xs" "Suc j < length xs"
      by (auto simp: distinct_adj_Cons)
    from Cons.IH [OF this] Suc show ?thesis by simp
  qed
qed

lemma with_separators_roles_differ:
  assumes "Suc i < length (with_separators ms)"
  shows "role (with_separators ms ! i) \<noteq> role (with_separators ms ! Suc i)"
proof -
  have "map role (with_separators ms) ! i \<noteq> map role (with_separators ms) ! Suc i"
    using assms by (intro distinct_adj_nth with_separators_adj) simp
  with assms show ?thesis by simp
qed

lemma separated_after_subseq: "subseq ms (separated_after p ms)"
proof (induction ms arbitrary: p)
  case Nil
  show ?case by simp
next
  case (Cons m ms)
  have keep: "subseq (m # ms) (m # separated_after m ms)"
    using Cons.IH [of m] by simp
  show ?case
  proof (cases "role m = role p")
    case True
    have "subseq (m # ms) (separator_for (role m) # m # separated_after m ms)"
      by (rule list_emb_Cons) (rule keep)
    with True show ?thesis by simp
  next
    case False
    with keep show ?thesis by simp
  qed
qed

lemma with_separators_subseq: "subseq ms (with_separators ms)"
proof (cases ms)
  case Nil
  then show ?thesis by simp
next
  case (Cons m ms')
  then show ?thesis using separated_after_subseq [of ms' m] by simp
qed

text \<open>
  C3. When the strict-alternation pass applies (model id \<open>deepseek-reasoner\<close>), the output
  of \<open>processReqMessages\<close> has no two consecutive entries that share the role user or the
  role assistant; it is the input with an empty message of the opposite role between
  same-role neighbours; and input roles user, user, assistant, assistant give output roles
  user, assistant (empty), user, assistant, user (empty), assistant.
\<close>

theorem processReqMessages_strict_alternation:
  assumes "model_id m = ''deepseek-reasoner''"
  shows "(\<forall>i. Suc i < length (processReqMessages m msgs) \<longrightarrow>
            \<not> (role (processReqMessages m msgs ! i) = role (processReqMessages m msgs ! Suc i) \<and>
               role (processReqMessages m msgs ! i) \<in> {User, Assistant})) \<and>
         processReqMessages m msgs = with_separators msgs \<and>
         processReqMessages m
           [\<lparr>role = User, content = c1\<rparr>, \<lparr>role = User, content = c2\<rparr>,
            \<lparr>role = Assistant, content = c3\<rparr>, \<lparr>role = Assistant, content = c4\<rparr>] =
           [\<lparr>role = User, content = c1\<rparr>, \<lparr>role = Assistant, content = Text []\<rparr>,
            \<lparr>role = User, content = c2\<rparr>, \<lparr>role = Assistant, content = c3\<rparr>,
            \<lparr>role = User, content = Text []\<rparr>, \<lparr>role = Assistant, content = c4\<rparr>]"
proof (intro conjI allI impI)
  fix i
  assume "Suc i < length (processReqMessages m msgs)"
  then have "role (processReqMessages m msgs ! i) \<noteq> role (processReqMessages m msgs ! Suc i)"
    using assms by (simp add: processReqMessages_deepseek with_separators_roles_differ)
  then show "\<not> (role (processReqMessages m msgs ! i) = role (processReqMessages m msgs ! Suc i) \<and>
               role (processReqMessages m msgs ! i) \<in> {User, Assistant})"
    by simp
next
  show "processReqMessages m msgs = with_separators msgs"
    using assms by (rule processReqMessages_deepseek)
next
  show "processReqMessages m
           [\<lparr>role = User, content = c1\<rparr>, \<lparr>role = User, content = c2\<rparr>,
            \<lparr>role = Assistant, content = c3\<rparr>, \<lparr>role = Assistant, content = c4\<rparr>] =
           [\<lparr>role = User, content = c1\<rparr>, \<lparr>role = Assistant, content = Text []\<rparr>,
            \<lparr>role = User, content = c2\<rparr>, \<lparr>role = Assistant, content = c3\<rparr>,
            \<lparr>role = User, content = Text []\<rparr>, \<lparr>role = Assistant, content = c4\<rparr>]"
    using assms by (simp add: processReqMessages_deepseek separator_for_def)
qed

theorem processReqMessages_strict_alternation_witness:
  "model_id \<lparr>model_id = ''deepseek-reasoner'', model_provider = ''deepseek''\<rparr> = ''deepseek-reasoner'' \<and>
   processReqMessages \<lparr>model_id = ''deepseek-reasoner'', model_provider = ''deepseek''\<rparr>
     [\<lparr>role = User, content = Text ''a''\<rparr>, \<lparr>role = User, content = Text ''b''\<rparr>,
      \<lparr>role = Assistant, content = Text ''c''\<rparr>, \<lparr>role = Assistant, content = Text ''d''\<rparr>] =
     [\<lparr>role = User, content = Text ''a''\<rparr>, \<lparr>role = Assistant, content = Text []\<rparr>,
      \<lparr>role = User, content = Text ''b''\<rparr>, \<lparr>role = Assistant, content = Text ''c''\<rparr>,
      \<lparr>role = User, content = Text []\<rparr>, \<lparr>role = Assistant, content = Text ''d''\<rparr>]"
  using processReqMessages_strict_alternation
    [of "\<lparr>model_id = ''deepseek-reasoner'', model_provider = ''deepseek''\<rparr>"
        "[\<lparr>role = User, content = Text ''a''\<rparr>, \<lparr>role = User, content = Text ''b''\<rparr>]"
        "Text ''a''" "Text ''b''" "Text ''c''" "Text ''d''"]
  by simp

text \<open>
  C9. For model id \<open>deepseek-reasoner\<close>, \<open>processReqMessages\<close> puts an empty separator
  between every two consecutive messages of the same role, whatever the role (system and
  tool too), of role assistant when the repeated role is user and of role user otherwise;
  no two adjacent entries of the output have equal roles; and the original messages stand
  in the output unmodified and in their order.
\<close>

theorem processReqMessages_separates_every_role:
  assumes "model_id m = ''deepseek-reasoner''"
  shows "processReqMessages m msgs = with_separators msgs \<and>
         (\<forall>i. Suc i < length (processReqMessages m msgs) \<longrightarrow>
            role (processReqMessages m msgs ! i) \<noteq> role (processReqMessages m msgs ! Suc i)) \<and>
         subseq msgs (processReqMessages m msgs)"
  using assms
  by (simp add: processReqMessages_deepseek with_separators_roles_differ with_separators_subseq)

theorem processReqMessages_separates_every_role_witness:
  "model_id \<lparr>model_id = ''deepseek-reasoner'', model_provider = ''deepseek''\<rparr> = ''deepseek-reasoner'' \<and>
   processReqMessages \<lparr>model_id = ''deepseek-reasoner'', model_provider = ''deepseek''\<rparr>
     [\<lparr>role = System, content = Text ''s''\<rparr>, \<lparr>role = System, content = Text ''t''\<rparr>,
      \<lparr>role = Tool, content = Text ''r''\<rparr>, \<lparr>role = Tool, content = Text ''q''\<rparr>,
      \<lparr>role = User, content = Text ''u''\<rparr>, \<lparr>role = User, content = Text ''v''\<rparr>] =
     [\<lparr>role = System, content = Text ''s''\<rparr>, \<lparr>role = User, content = Text []\<rparr>,
      \<lparr>role = System, content = Text ''t''\<rparr>,
      \<lparr>role = Tool, content = Text ''r''\<rparr>, \<lparr>role = User, content = Text []\<rparr>,
      \<lparr>role = Tool, content = Text ''q''\<rparr>,
      \<lparr>role = User, content = Text ''u''\<rparr>, \<lparr>role = Assistant, content = Text []\<rparr>,
      \<lparr>role = User, content = Text ''v''\<rparr>]"
  using processReqMessages_separates_every_role
    [of "\<lparr>model_id = ''deepseek-reasoner'', model_provider = ''deepseek''\<rparr>"
        "[\<lparr>role = System, content = Text ''s''\<rparr>, \<lparr>role = System, content = Text ''t''\<rparr>,
      \<lparr>role = Tool, content = Text ''r''\<rparr>, \<lparr>role = Tool, content = Text ''q''\<rparr>,
      \<lparr>role = User, content = Text ''u''\<rparr>, \<lparr>role = User, content = Text ''v''\<rparr>]"]
  by (simp add: separator_for_def)

section \<open>Properties of the citation formatter\<close>

lemma map_index_length: "length (map_index f xs) = length xs"
  by (simp add: map_index_def)

lemma map_index_nth: "k < length xs \<Longrightarrow> map_index f xs ! k = f (xs ! k) k"
  by (simp add: map_index_def nth_enumerate_eq)

lemma renumber_length: "length (renumber cs) = length cs"
  by (simp add: renumber_def map_index_length)

lemma renumber_nth: "k < length cs \<Longrightarrow> renumber cs ! k = (cs ! k)\<lparr>cit_number := k + 1\<rparr>"
  by (simp add: renumber_def map_index_nth)

lemma renumber_numbers: "map cit_number (renumber cs) = [1..<Suc (length (renumber cs))]"
  by (rule nth_equalityI) (simp_all add: renumber_length renumber_nth nth_upt del: upt_Suc)

lemma renumber_urls: "map cit_url (renumber cs) = map cit_url cs"
  by (rule nth_equalityI) (simp_all add: renumber_length renumber_nth)

lemma renumber_member:
  assumes "c \<in> set (renumber cs)"
  shows "\<exists>d \<in> set cs. c = d\<lparr>cit_number := cit_number c\<rparr>"
proof -
  from assms obtain k where k: "k < length cs" "c = renumber cs ! k"
    by (auto simp: in_set_conv_nth renumber_length)
  then have "c = (cs ! k)\<lparr>cit_number := cit_number c\<rparr>"
    by (simp add: renumber_nth)
  with k show ?thesis by (metis nth_mem)
qed

lemma fresh_url_empty: "fresh_url {} = truthy"
  by (rule ext) (simp add: fresh_url_def truthy_def split: option.splits)

lemma fresh_url_filter_insert:
  "filter (\<lambda>x. fresh_url S x \<and> x \<noteq> Some u) us = filter (fresh_url (insert u S)) us"
  by (induction us) (auto simp: fresh_url_def split: option.splits)

lemma dedup_filter_urls:
  "map cit_url (dedup_filter S cs) = keep_first (filter (fresh_url S) (map cit_url cs))"
proof (induction cs arbitrary: S)
  case Nil
  show ?case by simp
next
  case (Cons c cs)
  show ?case
  proof (cases "fresh_url S (cit_url c)")
    case False
    then show ?thesis using Cons.IH [of S]
      by (auto simp: fresh_url_def split: option.splits)
  next
    case True
    then obtain u where u: "cit_url c = Some u" "u \<noteq> []" "u \<notin> S"
      by (auto simp: fresh_url_def split: option.splits)
    with True show ?thesis
      using Cons.IH [of "insert u S"] by (simp add: fresh_url_filter_insert)
  qed
qed

lemma dedup_filter_first:
  "c \<in> set (dedup_filter S cs) \<Longrightarrow>
     fresh_url S (cit_url c) \<and> find (\<lambda>d. cit_url d = cit_url c) cs = Some c"
proof (induction cs arbitrary: S)
  case Nil
  then show ?case by simp
next
  case (Cons c0 cs)
  show ?case
  proof (cases "fresh_url S (cit_url c0)")
    case False
    with Cons.prems have "c \<in> set (dedup_filter S cs)"
      by (auto simp: fresh_url_def split: option.splits)
    from Cons.IH [OF this] False show ?thesis by auto
  next
    case True
    then obtain u where u: "cit_url c0 = Some u" "u \<noteq> []" "u \<notin> S"
      by (auto simp: fresh_url_def split: option.splits)
    with Cons.prems have "c = c0 \<or> c \<in> set (dedup_filter (insert u S) cs)" by auto
    then show ?thesis
    proof
      assume "c = c0"
      with True show ?thesis by simp
    next
      assume "c \<in> set (dedup_filter (insert u S) cs)"
      from Cons.IH [OF this] u show ?thesis
        by (auto simp: fresh_url_def split: option.splits)
    qed
  qed
qed

lemma keep_first_set: "set (keep_first xs) = set xs"
  by (induction xs rule: keep_first.induct) auto

lemma keep_first_distinct: "distinct (keep_first xs)"
  by (induction xs rule: keep_first.induct) (simp_all add: keep_first_set)

lemma format_urls:
  "map cit_url (formatCitationsFromBlock h (Some b)) =
     keep_first (filter truthy (map cit_url (formattedCitations h b)))"
  by (simp add: formatCitationsFromBlock_def renumber_urls dedup_filter_urls fresh_url_empty)

lemma format_numbers:
  "map cit_number (formatCitationsFromBlock h b) =
     [1..<Suc (length (formatCitationsFromBlock h b))]"
  by (cases b) (simp_all add: formatCitationsFromBlock_def renumber_numbers del: upt_Suc)

lemma format_member:
  assumes "c \<in> set (formatCitationsFromBlock h (Some b))"
  shows "truthy (cit_url c) \<and>
         (\<exists>d. find (\<lambda>e. cit_url e = cit_url c) (formattedCitations h b) = Some d \<and>
              c = d\<lparr>cit_number := cit_number c\<rparr>)"
proof -
  from assms obtain d where d: "d \<in> set (dedup_filter {} (formattedCitations h b))"
      "c = d\<lparr>cit_number := cit_number c\<rparr>"
    using renumber_member by (auto simp: formatCitationsFromBlock_def)
  from d(2) have url: "cit_url c = cit_url d"
    by (metis Citation.select_convs(2) Citation.surjective Citation.update_convs(1))
  from dedup_filter_first [OF d(1)] url d(2) show ?thesis
    by (auto simp: fresh_url_empty)
qed

text \<open>
  C4. For every citation block, \<open>formatCitationsFromBlock\<close> deduplicates by URL: the URLs
  of the output are those of the normalized citations that carry one, each once, in the
  order of their first occurrences; every output citation is the first normalized citation
  with its URL, renumbered; and the numbers of the output are 1..N in order. URLs a.com,
  b.com, a.com give two citations, numbered 1 and 2, a.com before b.com.
\<close>

theorem formatCitationsFromBlock_dedup_renumber:
  "map cit_url (formatCitationsFromBlock h (Some b)) =
     keep_first (filter truthy (map cit_url (formattedCitations h b))) \<and>
   distinct (map cit_url (formatCitationsFromBlock h (Some b))) \<and>
   (\<forall>c \<in> set (formatCitationsFromBlock h (Some b)).
      \<exists>d. find (\<lambda>e. cit_url e = cit_url c) (formattedCitations h b) = Some d \<and>
          c = d\<lparr>cit_number := cit_number c\<rparr>) \<and>
   map cit_number (formatCitationsFromBlock h (Some b)) =
     [1..<Suc (length (formatCitationsFromBlock h (Some b)))] \<and>
   map (\<lambda>c. (cit_number c, cit_url c))
     (formatCitationsFromBlock h
        (Some \<lparr>cb_response = Some (PERPLEXITY (Some [''a.com'', ''b.com'', ''a.com''])),
              cb_knowledge = None\<rparr>)) =
     [(1, Some ''a.com''), (2, Some ''b.com'')]"
proof (intro conjI ballI)
  show "map cit_url (formatCitationsFromBlock h (Some b)) =
     keep_first (filter truthy (map cit_url (formattedCitations h b)))"
    by (rule format_urls)
  then show "distinct (map cit_url (formatCitationsFromBlock h (Some b)))"
    by (simp add: keep_first_distinct)
next
  fix c
  assume "c \<in> set (formatCitationsFromBlock h (Some b))"
  then show "\<exists>d. find (\<lambda>e. cit_url e = cit_url c) (formattedCitations h b) = Some d \<and>
          c = d\<lparr>cit_number := cit_number c\<rparr>"
    using format_member by blast
next
  show "map cit_number (formatCitationsFromBlock h (Some b)) =
     [1..<Suc (length (formatCitationsFromBlock h (Some b)))]"
    by (rule format_numbers)
next
  show "map (\<lambda>c. (cit_number c, cit_url c))
     (formatCitationsFromBlock h
        (Some \<lparr>cb_response = Some (PERPLEXITY (Some [''a.com'', ''b.com'', ''a.com''])),
              cb_knowledge = None\<rparr>)) =
     [(1, Some ''a.com''), (2, Some ''b.com'')]"
    by (simp add: formatCitationsFromBlock_def formattedCitations_def renumber_def
        map_index_def or_empty_def url_list_citation_def enumerate_eq_zip split: option.splits)
qed

theorem formatCitationsFromBlock_dedup_renumber_witness:
  "formatCitationsFromBlock (\<lambda>u. None)
     (Some \<lparr>cb_response = Some (OPENROUTER (Some [''a.com'', ''b.com'', ''a.com''])),
           cb_knowledge = Some [\<lparr>sourceUrl = ''b.com'', kr_content = ''k''\<rparr>,
                                \<lparr>sourceUrl = ''c.org'', kr_content = ''l''\<rparr>]\<rparr>) =
     [\<lparr>cit_number = 1, cit_url = Some ''a.com'', cit_title = None, cit_hostname = Some ''a.com'',
       cit_content = None, cit_showFavicon = True, cit_type = websearch\<rparr>,
      \<lparr>cit_number = 2, cit_url = Some ''b.com'', cit_title = None, cit_hostname = Some ''b.com'',
       cit_content = None, cit_showFavicon = True, cit_type = websearch\<rparr>,
      \<lparr>cit_number = 3, cit_url = Some ''c.org'', cit_title = Some ''c.org'', cit_hostname = None,
       cit_content = Some ''l'', cit_showFavicon = True, cit_type = knowledge\<rparr>] \<and>
   distinct (map cit_url (formatCitationsFromBlock (\<lambda>u. None)
     (Some \<lparr>cb_response = Some (OPENROUTER (Some [''a.com'', ''b.com'', ''a.com''])),
           cb_knowledge = Some [\<lparr>sourceUrl = ''b.com'', kr_content = ''k''\<rparr>,
                                \<lparr>sourceUrl = ''c.org'', kr_content = ''l''\<rparr>]\<rparr>)))"
  using formatCitationsFromBlock_dedup_renumber
    [of "\<lambda>u. None"
        "\<lparr>cb_response = Some (OPENROUTER (Some [''a.com'', ''b.com'', ''a.com''])),
           cb_knowledge = Some [\<lparr>sourceUrl = ''b.com'', kr_content = ''k''\<rparr>,
                                \<lparr>sourceUrl = ''c.org'', kr_content = ''l''\<rparr>]\<rparr>"]
  by (simp add: formatCitationsFromBlock_def formattedCitations_def renumber_def
      map_index_def or_empty_def url_list_citation_def knowledge_citation_def enumerate_eq_zip)

text \<open>
  C10. \<open>formatCitationsFromBlock\<close> never outputs a citation whose URL is missing or empty:
  such a normalized citation (a Gemini grounding chunk without a web uri becomes one, with
  URL \<open>''\<close>) is removed by the filter before the renumbering, so the numbers of the output
  are still 1..N.
\<close>

theorem formatCitationsFromBlock_urls_nonempty:
  "(\<forall>c \<in> set (formatCitationsFromBlock h block). \<exists>u. cit_url c = Some u \<and> u \<noteq> []) \<and>
   map cit_number (formatCitationsFromBlock h block) =
     [1..<Suc (length (formatCitationsFromBlock h block))] \<and>
   cit_url (gemini_citation \<lparr>web = None\<rparr> k) = Some [] \<and>
   cit_url (gemini_citation \<lparr>web = Some \<lparr>uri = None, web_title = t\<rparr>\<rparr> k) = Some [] \<and>
   formatCitationsFromBlock h
     (Some \<lparr>cb_response = Some (GEMINI (Some \<lparr>groundingChunks = Some
               [\<lparr>web = Some \<lparr>uri = None, web_title = Some ''lost''\<rparr>\<rparr>,
                \<lparr>web = Some \<lparr>uri = Some ''g.com'', web_title = Some ''kept''\<rparr>\<rparr>]\<rparr>)),
           cb_knowledge = None\<rparr>) =
     [\<lparr>cit_number = 1, cit_url = Some ''g.com'', cit_title = Some ''kept'', cit_hostname = None,
       cit_content = None, cit_showFavicon = False, cit_type = websearch\<rparr>]"
proof (intro conjI ballI)
  fix c
  assume c: "c \<in> set (formatCitationsFromBlock h block)"
  then obtain b where "block = Some b"
    by (cases block) (simp_all add: formatCitationsFromBlock_def)
  with c have "truthy (cit_url c)"
    using format_member by blast
  then show "\<exists>u. cit_url c = Some u \<and> u \<noteq> []"
    by (simp add: truthy_def split: option.splits)
next
  show "map cit_number (formatCitationsFromBlock h block) =
     [1..<Suc (length (formatCitationsFromBlock h block))]"
    by (rule format_numbers)
next
  show "cit_url (gemini_citation \<lparr>web = None\<rparr> k) = Some []"
    by (simp add: gemini_citation_def js_or_def truthy_def)
next
  show "cit_url (gemini_citation \<lparr>web = Some \<lparr>uri = None, web_title = t\<rparr>\<rparr> k) = Some []"
    by (simp add: gemini_citation_def js_or_def truthy_def)
next
  show "formatCitationsFromBlock h
     (Some \<lparr>cb_response = Some (GEMINI (Some \<lparr>groundingChunks = Some
               [\<lparr>web = Some \<lparr>uri = None, web_title = Some ''lost''\<rparr>\<rparr>,
                \<lparr>web = Some \<lparr>uri = Some ''g.com'', web_title = Some ''kept''\<rparr>\<rparr>]\<rparr>)),
           cb_knowledge = None\<rparr>) =
     [\<lparr>cit_number = 1, cit_url = Some ''g.com'', cit_title = Some ''kept'', cit_hostname = None,
       cit_content = None, cit_showFavicon = False, cit_type = websearch\<rparr>]"
    by (simp add: formatCitationsFromBlock_def formattedCitations_def renumber_def
        map_index_def or_empty_def gemini_citation_def js_or_def truthy_def enumerate_eq_zip)
qed

theorem formatCitationsFromBlock_urls_nonempty_witness:
  "formatCitationsFromBlock (\<lambda>u. None)
     (Some \<lparr>cb_response = Some (ZHIPU (Some
               [\<lparr>lr_link = None, lr_url = None, lr_title = Some ''no url''\<rparr>,
                \<lparr>lr_link = Some [], lr_url = Some ''z.cn'', lr_title = Some ''second''\<rparr>,
                \<lparr>lr_link = Some [], lr_url = Some [], lr_title = Some ''empty''\<rparr>])),
           cb_knowledge = None\<rparr>) =
     [\<lparr>cit_number = 1, cit_url = Some ''z.cn'', cit_title = Some ''second'', cit_hostname = None,
       cit_content = None, cit_showFavicon = True, cit_type = websearch\<rparr>]"
  using formatCitationsFromBlock_urls_nonempty
    [of "\<lambda>u. None"
        "Some \<lparr>cb_response = Some (ZHIPU (Some
               [\<lparr>lr_link = None, lr_url = None, lr_title = Some ''no url''\<rparr>,
                \<lparr>lr_link = Some [], lr_url = Some ''z.cn'', lr_title = Some ''second''\<rparr>,
                \<lparr>lr_link = Some [], lr_url = Some [], lr_title = Some ''empty''\<rparr>])),
           cb_knowledge = None\<rparr>"]
  by (simp add: formatCitationsFromBlock_def formattedCitations_def renumber_def
        map_index_def or_empty_def link_citation_def js_or_def truthy_def enumerate_eq_zip)

section \<open>Properties of the streaming rounds\<close>

lemmas chunk_defs =
  chunk_step_def latch_first_token_def reasoning_delta_def reasoning_done_def
  text_content_def finish_def isReasoningJustDone_def reasoningContent_of_def delta_of_def
  finishReason_of_def converted_content_def web_search_events_def assistant_provider_def

lemmas scenario_defs =
  reasoning_chunk_def content_chunk_def finish_chunk_def both_chunk_def plain_chunk_def no_delta_def

lemmas env_defs =
  two_round_env_def looping_env_def quiet_env_def round0_chunks_def round1_chunks_def
  usage0_def usage1_def initial_closure_def initial_locals_def processReqMessages_def
  needStrictlyInterleaveUserAndAssistantMessages_def the_model_def isEnabledWebSearch_def
  tool_request_def block_complete_def reset_timestamps_def timestamps_def buffers_def
  truthy_def js_or_def str_of_def Let_def


lemma processStream_no_tools:
  assumes "streamOutput e"
    and "stream_loop e (c, initial_locals) chunks = Inr (c1, l, evs)"
    and "tool_request e c1 (content_acc l) idx = (c2, tool_evs, None)"
  shows "processStream e c (Stream chunks) idx =
     Some (Inr (reset_timestamps c2, evs @ tool_evs @ [block_complete c2 l]))"
  by (subst processStream.simps) (simp add: assms)

lemma processStream_tools:
  assumes "streamOutput e"
    and "stream_loop e (c, initial_locals) chunks = Inr (c1, l, evs)"
    and "tool_request e c1 (content_acc l) idx = (c2, tool_evs, Some (Inr newStream))"
  shows "processStream e c (Stream chunks) idx =
     Option.bind (processStream e c2 newStream (idx + 1))
       (\<lambda>r. case r of
              Inl err \<Rightarrow> Some (Inl err)
            | Inr (c3, round_evs) \<Rightarrow>
                Some (Inr (reset_timestamps c3,
                           evs @ tool_evs @ round_evs @ [block_complete c3 l])))"
  by (subst processStream.simps) (simp add: assms)

lemma tool_request_none:
  assumes "toolResults (parseAndCallTools e text (toolResponses c) idx) = []"
  shows "tool_request e c text idx =
     (c\<lparr>toolResponses := tool_toolResponses (parseAndCallTools e text (toolResponses c) idx)\<rparr>,
      tool_events (parseAndCallTools e text (toolResponses c) idx), None)"
  using assms by (simp add: tool_request_def Let_def)

lemma scenario_loop:
  assumes "\<not> enableWebSearch e"
  shows "case stream_loop e (initial_closure e msgs, initial_locals)
       [reasoning_chunk ''think1'' t1, reasoning_chunk ''think2'' t2,
        content_chunk ''Answer'' t3, finish_chunk None t4] of
      Inl err \<Rightarrow> False
    | Inr (c1, l, evs) \<Rightarrow>
        evs = [THINKING_DELTA ''think1'' 0, THINKING_DELTA ''think2'' (t2 - t1),
               THINKING_COMPLETE ''think1think2'' (t3 - t1), TEXT_DELTA ''Answer'',
               TEXT_COMPLETE ''Answer''] \<and>
        content_acc l = ''Answer'' \<and> lastUsage l = None \<and> toolResponses c1 = []"
  using assms
  by (simp add: initial_closure_def
      initial_locals_def chunk_defs scenario_defs truthy_def js_or_def str_of_def Let_def)

text \<open>
  C5. For the chunks \<open>{reasoning: "think1"}\<close>, \<open>{reasoning: "think2"}\<close>,
  \<open>{content: "Answer"}\<close>, \<open>{finish: true}\<close>, when no tool call is found, the events of
  \<open>processStream\<close> are, in this order, thinking-delta think1, thinking-delta think2,
  thinking-complete think1think2, text-delta Answer, text-complete Answer, block-complete.
  (Streaming output is on and web search off, so that no link converter rewrites the text.)
\<close>

theorem processStream_reasoning_then_answer:
  assumes "streamOutput e" and "\<not> enableWebSearch e"
    and "toolResults (parseAndCallTools e ''Answer'' [] 0) = []"
    and "tool_events (parseAndCallTools e ''Answer'' [] 0) = []"
  shows "\<exists>c' m.
     processStream e (initial_closure e msgs)
       (Stream [reasoning_chunk ''think1'' t1, reasoning_chunk ''think2'' t2,
                content_chunk ''Answer'' t3, finish_chunk None t4]) 0 =
     Some (Inr (c',
       [THINKING_DELTA ''think1'' 0, THINKING_DELTA ''think2'' (t2 - t1),
        THINKING_COMPLETE ''think1think2'' (t3 - t1), TEXT_DELTA ''Answer'',
        TEXT_COMPLETE ''Answer'', BLOCK_COMPLETE None m]))"
proof -
  from scenario_loop [OF assms(2), where msgs = msgs and ?t1.0 = t1 and ?t2.0 = t2 and ?t3.0 = t3 and ?t4.0 = t4]
  obtain c1 l where loop: "stream_loop e (initial_closure e msgs, initial_locals)
       [reasoning_chunk ''think1'' t1, reasoning_chunk ''think2'' t2,
        content_chunk ''Answer'' t3, finish_chunk None t4] =
      Inr (c1, l, [THINKING_DELTA ''think1'' 0, THINKING_DELTA ''think2'' (t2 - t1),
               THINKING_COMPLETE ''think1think2'' (t3 - t1), TEXT_DELTA ''Answer'',
               TEXT_COMPLETE ''Answer''])"
    and l: "content_acc l = ''Answer''" "lastUsage l = None" "toolResponses c1 = []"
    by (auto split: sum.splits)
  have tools: "tool_request e c1 (content_acc l) 0 =
      (c1\<lparr>toolResponses := tool_toolResponses (parseAndCallTools e ''Answer'' [] 0)\<rparr>, [], None)"
    using tool_request_none [of e "content_acc l" c1 0] assms(3,4) l by simp
  show ?thesis
    unfolding processStream_no_tools [OF assms(1) loop tools]
    by (simp add: block_complete_def l)
qed

theorem processStream_reasoning_then_answer_witness:
  "\<exists>c' m.
     processStream quiet_env (initial_closure quiet_env [])
       (Stream [reasoning_chunk ''think1'' 101, reasoning_chunk ''think2'' 102,
                content_chunk ''Answer'' 105, finish_chunk None 106]) 0 =
     Some (Inr (c',
       [THINKING_DELTA ''think1'' 0, THINKING_DELTA ''think2'' 1,
        THINKING_COMPLETE ''think1think2'' 4, TEXT_DELTA ''Answer'',
        TEXT_COMPLETE ''Answer'', BLOCK_COMPLETE None m]))"
  using processStream_reasoning_then_answer [of quiet_env "[]" 101 102 105 106]
  by (simp add: quiet_env_def)

lemma chunk_step_phases:
  assumes "chunk_step e (c, l) ch = Inr (c', l', evs)"
  obtains c0 l0 c1 l1 ev1 c2 l2 ev2 c3 l3 ev3 ev4 where
    "latch_first_token e (c, l) ch = (c0, l0)"
    "reasoning_delta (c0, l0) ch = (c1, l1, ev1)"
    "reasoning_done (c1, l1) ch = (c2, l2, ev2)"
    "text_content e (c2, l2) ch = Inr (c3, l3, ev3)"
    "finish e (c3, l3) ch = (c', l', ev4)"
    "evs = ev1 @ ev2 @ ev3 @ ev4"
proof -
  obtain c0 l0 where s0: "latch_first_token e (c, l) ch = (c0, l0)"
    by (cases "latch_first_token e (c, l) ch")
  obtain c1 l1 ev1 where s1: "reasoning_delta (c0, l0) ch = (c1, l1, ev1)"
    by (cases "reasoning_delta (c0, l0) ch")
  obtain c2 l2 ev2 where s2: "reasoning_done (c1, l1) ch = (c2, l2, ev2)"
    by (cases "reasoning_done (c1, l1) ch")
  from assms s0 s1 s2 obtain c3 l3 ev3 where s3: "text_content e (c2, l2) ch = Inr (c3, l3, ev3)"
    by (auto simp: chunk_step_def split: sum.splits)
  obtain c4 l4 ev4 where s4: "finish e (c3, l3) ch = (c4, l4, ev4)"
    by (cases "finish e (c3, l3) ch")
  from assms s0 s1 s2 s3 s4 have "c' = c4" "l' = l4" "evs = ev1 @ ev2 @ ev3 @ ev4"
    by (simp_all add: chunk_step_def)
  with s0 s1 s2 s3 s4 that show thesis by blast
qed

lemma stream_loop_Cons:
  assumes "stream_loop e (c, l) (ch # rest) = Inr (c', l', evs)" and "\<not> paused ch"
  obtains c1 l1 ev1 ev2 where
    "chunk_step e (c, l) ch = Inr (c1, l1, ev1)"
    "stream_loop e (c1, l1) rest = Inr (c', l', ev2)"
    "evs = ev1 @ ev2"
  using assms by (auto split: sum.splits)

subsection \<open>Usage\<close>

lemma latch_first_token_locals:
  assumes "latch_first_token e (c, l) ch = (c', l')"
  shows "lastUsage l' = lastUsage l \<and> thinkingContent l' = thinkingContent l \<and>
         content_acc l' = content_acc l"
  using assms by (auto simp: latch_first_token_def split: if_splits)

lemma reasoning_delta_usage:
  assumes "reasoning_delta (c, l) ch = (c', l', evs)"
  shows "lastUsage l' = lastUsage l \<and> (\<forall>ev \<in> set evs. \<not> is_block_complete ev)"
  using assms by (auto simp: reasoning_delta_def Let_def split: if_splits)

lemma reasoning_done_usage:
  assumes "reasoning_done (c, l) ch = (c', l', evs)"
  shows "lastUsage l' = lastUsage l \<and> (\<forall>ev \<in> set evs. \<not> is_block_complete ev)"
  using assms by (auto simp: reasoning_done_def Let_def split: if_splits prod.splits)

lemma text_content_usage:
  assumes "text_content e (c, l) ch = Inr (c', l', evs)"
  shows "lastUsage l' = lastUsage l \<and> (\<forall>ev \<in> set evs. \<not> is_block_complete ev)"
  using assms
  by (auto simp: text_content_def Let_def split: option.splits if_splits sum.splits)

lemma web_search_events_no_block_all:
  "list_all (\<lambda>ev. \<not> is_block_complete ev) (web_search_events e ch)"
  by (simp add: web_search_events_def split: option.split)

lemma web_search_events_no_block:
  "ev \<in> set (web_search_events e ch) \<Longrightarrow> \<not> is_block_complete ev"
  using web_search_events_no_block_all [of e ch] by (simp add: list_all_iff)

lemma finish_usage:
  assumes "finish e (c, l) ch = (c', l', evs)"
  shows "lastUsage l' =
           (if truthy (finishReason_of ch) \<and> ch_usage ch \<noteq> None then ch_usage ch else lastUsage l) \<and>
         (\<forall>ev \<in> set evs. \<not> is_block_complete ev)"
  using assms web_search_events_no_block [of _ e ch]
  by (auto simp: finish_def split: if_splits option.splits)

lemma chunk_step_usage:
  assumes "chunk_step e (c, l) ch = Inr (c', l', evs)"
  shows "lastUsage l' =
           (if truthy (finishReason_of ch) \<and> ch_usage ch \<noteq> None then ch_usage ch else lastUsage l) \<and>
         (\<forall>ev \<in> set evs. \<not> is_block_complete ev)"
proof -
  from assms obtain c0 l0 c1 l1 ev1 c2 l2 ev2 c3 l3 ev3 ev4 where
    s: "latch_first_token e (c, l) ch = (c0, l0)"
    "reasoning_delta (c0, l0) ch = (c1, l1, ev1)"
    "reasoning_done (c1, l1) ch = (c2, l2, ev2)"
    "text_content e (c2, l2) ch = Inr (c3, l3, ev3)"
    "finish e (c3, l3) ch = (c', l', ev4)"
    "evs = ev1 @ ev2 @ ev3 @ ev4"
    by (rule chunk_step_phases)
  from latch_first_token_locals [OF s(1)] reasoning_delta_usage [OF s(2)]
    reasoning_done_usage [OF s(3)] text_content_usage [OF s(4)] finish_usage [OF s(5)] s(6)
  show ?thesis by auto
qed

lemma stream_loop_usage:
  assumes "stream_loop e (c, l) chunks = Inr (c', l', evs)"
  shows "lastUsage l' = usage_at_finish (lastUsage l) chunks \<and>
         (\<forall>ev \<in> set evs. \<not> is_block_complete ev)"
  using assms
proof (induction chunks arbitrary: c l evs)
  case Nil
  then show ?case by simp
next
  case (Cons ch rest)
  show ?case
  proof (cases "paused ch")
    case True
    with Cons.prems show ?thesis by simp
  next
    case False
    from Cons.prems False obtain c1 l1 ev1 ev2 where
      step: "chunk_step e (c, l) ch = Inr (c1, l1, ev1)" and
      rest: "stream_loop e (c1, l1) rest = Inr (c', l', ev2)" and
      evs: "evs = ev1 @ ev2"
      by (rule stream_loop_Cons)
    from chunk_step_usage [OF step] Cons.IH [OF rest] evs False show ?thesis by auto
  qed
qed

subsection \<open>The timestamps\<close>

lemma isReasoningJustDone_times:
  assumes "isReasoningJustDone c d = (b, c')"
  shows "time_first_token_millsec c' = time_first_token_millsec c \<and>
         time_first_token_millsec_delta c' = time_first_token_millsec_delta c \<and>
         time_first_content_millsec c' = time_first_content_millsec c"
  using assms
  by (auto simp: isReasoningJustDone_def Let_def split: option.splits if_splits)

lemma latch_first_token_times:
  assumes "latch_first_token e (c, l) ch = (c', l')"
  shows "(time_first_token_millsec c \<noteq> 0 \<longrightarrow>
            time_first_token_millsec c' = time_first_token_millsec c) \<and>
         time_first_content_millsec c' = time_first_content_millsec c"
  using assms by (auto simp: latch_first_token_def split: if_splits)

lemma reasoning_delta_times:
  assumes "reasoning_delta (c, l) ch = (c', l', evs)"
  shows "time_first_token_millsec c' = time_first_token_millsec c \<and>
         time_first_content_millsec c' = time_first_content_millsec c"
  using assms by (auto simp: reasoning_delta_def Let_def split: if_splits)

lemma reasoning_done_times:
  assumes "reasoning_done (c, l) ch = (c', l', evs)"
  shows "time_first_token_millsec c' = time_first_token_millsec c \<and>
         (time_first_content_millsec c \<noteq> 0 \<longrightarrow>
            time_first_content_millsec c' = time_first_content_millsec c)"
proof -
  obtain b c1 where j: "isReasoningJustDone c (delta_of ch) = (b, c1)"
    by (cases "isReasoningJustDone c (delta_of ch)")
  from isReasoningJustDone_times [OF j] assms j show ?thesis
    by (auto simp: reasoning_done_def Let_def split: if_splits)
qed

lemma text_content_times:
  assumes "text_content e (c, l) ch = Inr (c', l', evs)"
  shows "(time_first_token_millsec c \<noteq> 0 \<longrightarrow>
            time_first_token_millsec c' = time_first_token_millsec c) \<and>
         time_first_content_millsec c' = time_first_content_millsec c"
  using assms
  by (auto simp: text_content_def Let_def split: option.splits if_splits sum.splits)

lemma finish_closure:
  assumes "finish e (c, l) ch = (c', l', evs)"
  shows "c' = c"
  using assms by (auto simp: finish_def split: if_splits)

lemma chunk_step_times:
  assumes "chunk_step e (c, l) ch = Inr (c', l', evs)"
  shows "(time_first_token_millsec c \<noteq> 0 \<longrightarrow>
            time_first_token_millsec c' = time_first_token_millsec c) \<and>
         (time_first_content_millsec c \<noteq> 0 \<longrightarrow>
            time_first_content_millsec c' = time_first_content_millsec c)"
proof -
  obtain c0 l0 where s0: "latch_first_token e (c, l) ch = (c0, l0)"
    by (cases "latch_first_token e (c, l) ch")
  obtain c1 l1 ev1 where s1: "reasoning_delta (c0, l0) ch = (c1, l1, ev1)"
    by (cases "reasoning_delta (c0, l0) ch")
  obtain c2 l2 ev2 where s2: "reasoning_done (c1, l1) ch = (c2, l2, ev2)"
    by (cases "reasoning_done (c1, l1) ch")
  from assms s0 s1 s2 obtain c3 l3 ev3 where s3: "text_content e (c2, l2) ch = Inr (c3, l3, ev3)"
    by (auto simp: chunk_step_def split: sum.splits)
  obtain c4 l4 ev4 where s4: "finish e (c3, l3) ch = (c4, l4, ev4)"
    by (cases "finish e (c3, l3) ch")
  from assms s0 s1 s2 s3 s4 have "c' = c4"
    by (simp add: chunk_step_def)
  with latch_first_token_times [OF s0] reasoning_delta_times [OF s1] reasoning_done_times [OF s2]
    text_content_times [OF s3] finish_closure [OF s4]
  show ?thesis by simp
qed

lemma stream_loop_times:
  assumes "stream_loop e (c, l) chunks = Inr (c', l', evs)"
  shows "(time_first_token_millsec c \<noteq> 0 \<longrightarrow>
            time_first_token_millsec c' = time_first_token_millsec c) \<and>
         (time_first_content_millsec c \<noteq> 0 \<longrightarrow>
            time_first_content_millsec c' = time_first_content_millsec c)"
  using assms
proof (induction chunks arbitrary: c l c' l' evs)
  case Nil
  then show ?case by simp
next
  case (Cons ch rest)
  show ?case
  proof (cases "paused ch")
    case True
    with Cons.prems show ?thesis by simp
  next
    case False
    with Cons.prems obtain c1 l1 ev1 c2 l2 ev2
      where step: "chunk_step e (c, l) ch = Inr (c1, l1, ev1)"
        and rest: "stream_loop e (c1, l1) rest = Inr (c2, l2, ev2)"
        and res: "c' = c2"
      by (auto split: sum.splits)
    from chunk_step_times [OF step] Cons.IH [OF rest] res show ?thesis by auto
  qed
qed

lemma tool_request_times:
  assumes "tool_request e c text idx = (c', tool_evs, nxt)"
  shows "time_first_token_millsec c' = time_first_token_millsec c \<and>
         time_first_content_millsec c' = time_first_content_millsec c"
  using assms by (auto simp: tool_request_def Let_def split: if_splits)

lemma processStream_resets:
  assumes "processStream e c (Stream chunks) idx = Some (Inr (c', evs))" and "streamOutput e"
  shows "time_first_token_millsec c' = 0 \<and> time_first_content_millsec c' = 0"
  using assms
  by (subst (asm) processStream.simps)
    (auto simp: reset_timestamps_def split: sum.splits prod.splits option.splits bind_splits)

subsection \<open>The depth of the recursion\<close>

lemma tool_request_answered:
  assumes "toolResults (parseAndCallTools e text (toolResponses c) idx) \<noteq> []"
  shows "\<exists>c2 tool_evs. tool_request e c text idx =
           (c2, tool_evs, Some (sdk_create e (reqMessages c2)))"
  using assms by (simp add: tool_request_def Let_def)

lemma processStream_never_completes:
  assumes run: "processStream e c stream idx = Some y"
    and so: "streamOutput e"
    and always: "\<forall>text rs i. toolResults (parseAndCallTools e text rs i) \<noteq> []"
  shows "\<exists>err. y = Inl err"
proof -
  have "streamOutput e \<longrightarrow> (\<forall>text rs i. toolResults (parseAndCallTools e text rs i) \<noteq> []) \<longrightarrow>
        (\<exists>err. y = Inl err)"
    apply (rule processStream.raw_induct
        [where P = "\<lambda>e c stream idx y. streamOutput e \<longrightarrow>
           (\<forall>text rs i. toolResults (parseAndCallTools e text rs i) \<noteq> []) \<longrightarrow> (\<exists>err. y = Inl err)",
         OF _ run])
    subgoal premises prems for f e c stream idx y
    proof (intro impI)
      assume so: "streamOutput e"
        and always: "\<forall>text rs i. toolResults (parseAndCallTools e text rs i) \<noteq> []"
      note IH = prems(1) and body = prems(2)
      show "\<exists>err. y = Inl err"
      proof (cases stream)
        case (Completion r)
        with body so show ?thesis by auto
      next
        case (Stream chunks)
        show ?thesis
        proof (cases "stream_loop e (c, initial_locals) chunks")
          case (Inl err)
          with body so Stream show ?thesis by auto
        next
          case (Inr res)
          then obtain c1 l evs
            where loop: "stream_loop e (c, initial_locals) chunks = Inr (c1, l, evs)"
            by (cases res) auto
          from always obtain c2 tool_evs
            where tools: "tool_request e c1 (content_acc l) idx =
                            (c2, tool_evs, Some (sdk_create e (reqMessages c2)))"
            using tool_request_answered by blast
          show ?thesis
          proof (cases "sdk_create e (reqMessages c2)")
            case (Inl err)
            with body so Stream loop tools show ?thesis by auto
          next
            case (Inr newStream)
            with body so Stream loop tools
            have "Option.bind (f e c2 newStream (idx + 1))
                    (\<lambda>r. case r of
                           Inl err \<Rightarrow> Some (Inl err)
                         | Inr (c3, round_evs) \<Rightarrow>
                             Some (Inr (reset_timestamps c3,
                                        evs @ tool_evs @ round_evs @ [block_complete c3 l]))) = Some y"
              by simp
            then obtain r where inner: "f e c2 newStream (idx + 1) = Some r"
              and y: "(case r of
                         Inl err \<Rightarrow> Some (Inl err)
                       | Inr (c3, round_evs) \<Rightarrow>
                           Some (Inr (reset_timestamps c3,
                                      evs @ tool_evs @ round_evs @ [block_complete c3 l]))) = Some y"
              unfolding bind_eq_Some_conv by blast
            from IH [OF inner] so always obtain err where "r = Inl err" by blast
            with y show ?thesis by auto
          qed
        qed
      qed
    qed
    done
  with so always show ?thesis by blast
qed

lemma processStream_diverges:
  assumes so: "streamOutput e"
    and always: "\<forall>text rs i. toolResults (parseAndCallTools e text rs i) \<noteq> []"
    and sdk: "\<forall>ms. sdk_create e ms = Inr (Stream [])"
  shows "processStream e c (Stream []) idx = None"
proof (rule ccontr)
  assume "processStream e c (Stream []) idx \<noteq> None"
  then obtain y where run: "processStream e c (Stream []) idx = Some y" by auto
  from processStream_never_completes [OF run so always]
  obtain err where err: "y = Inl err" by blast
  have "streamOutput e \<longrightarrow> (\<forall>ms. sdk_create e ms = Inr (Stream [])) \<longrightarrow>
        (\<forall>text rs i. toolResults (parseAndCallTools e text rs i) \<noteq> []) \<longrightarrow>
        Stream [] = Stream [] \<longrightarrow> (\<forall>err. y \<noteq> Inl err)"
    apply (rule processStream.raw_induct
        [where P = "\<lambda>e c stream idx y. streamOutput e \<longrightarrow>
           (\<forall>ms. sdk_create e ms = Inr (Stream [])) \<longrightarrow>
           (\<forall>text rs i. toolResults (parseAndCallTools e text rs i) \<noteq> []) \<longrightarrow>
           stream = Stream [] \<longrightarrow> (\<forall>err. y \<noteq> Inl err)",
         OF _ run])
    subgoal premises prems for f e c stream idx y
    proof (intro impI)
      assume so: "streamOutput e"
        and sdk: "\<forall>ms. sdk_create e ms = Inr (Stream [])"
        and always: "\<forall>text rs i. toolResults (parseAndCallTools e text rs i) \<noteq> []"
        and empty: "stream = Stream []"
      note IH = prems(1) and body = prems(2)
      from always obtain c2 tool_evs
        where "tool_request e c (content_acc initial_locals) idx =
                 (c2, tool_evs, Some (sdk_create e (reqMessages c2)))"
        using tool_request_answered by blast
      with sdk have tools: "tool_request e c (content_acc initial_locals) idx =
                 (c2, tool_evs, Some (Inr (Stream [])))"
        by simp
      with body so empty
      have "Option.bind (f e c2 (Stream []) (idx + 1))
              (\<lambda>r. case r of
                     Inl err \<Rightarrow> Some (Inl err)
                   | Inr (c3, round_evs) \<Rightarrow>
                       Some (Inr (reset_timestamps c3,
                                  tool_evs @ round_evs @ [block_complete c3 initial_locals]))) =
            Some y"
        by simp
      then obtain r where inner: "f e c2 (Stream []) (idx + 1) = Some r"
        and y: "(case r of
                   Inl err \<Rightarrow> Some (Inl err)
                 | Inr (c3, round_evs) \<Rightarrow>
                     Some (Inr (reset_timestamps c3,
                                tool_evs @ round_evs @ [block_complete c3 initial_locals]))) =
                Some y"
        unfolding bind_eq_Some_conv by blast
      from IH [OF inner] so always sdk have "\<forall>err. r \<noteq> Inl err" by blast
      with y show "\<forall>err. y \<noteq> Inl err" by (cases r) auto
    qed
    done
  with so always sdk err show False by blast
qed

subsection \<open>The reasoning buffer\<close>

lemma thinking_trace_append:
  "thinking_trace buf (xs @ ys) = Option.bind (thinking_trace buf xs) (\<lambda>b. thinking_trace b ys)"
  by (induction buf xs rule: thinking_trace.induct) simp_all

lemma thinking_trace_plain:
  "filter is_thinking_complete evs = [] \<Longrightarrow>
     thinking_trace buf evs = Some (buf @ concat (map thinking_delta_text evs))"
  by (induction buf evs rule: thinking_trace.induct) simp_all

lemma thinking_trace_split:
  assumes "thinking_trace buf (pre @ THINKING_COMPLETE txt ms # post) = Some b"
    and "filter is_thinking_complete pre = []"
  shows "txt = buf @ concat (map thinking_delta_text pre) \<and> thinking_trace [] post = Some b"
  using assms
  by (simp add: thinking_trace_append thinking_trace_plain split: if_splits)

lemma web_search_events_no_thinking:
  "list_all (\<lambda>ev. \<not> is_thinking_complete ev \<and> thinking_delta_text ev = [])
     (web_search_events e ch)"
  by (simp add: web_search_events_def split: option.split)

lemma thinking_trace_silent:
  "list_all (\<lambda>ev. \<not> is_thinking_complete ev \<and> thinking_delta_text ev = []) evs \<Longrightarrow>
     thinking_trace buf evs = Some buf \<and> filter is_thinking_complete evs = []"
  by (induction buf evs rule: thinking_trace.induct) simp_all

lemma reasoning_delta_buffer:
  assumes "reasoning_delta (c, l) ch = (c', l', evs)"
  shows "thinking_trace (thinkingContent l) evs = Some (thinkingContent l') \<and>
         filter is_thinking_complete evs = [] \<and>
         content_acc l' = content_acc l \<and>
         (thinkingContent l' \<noteq> thinkingContent l \<longrightarrow> truthy (reasoningContent_of ch)) \<and>
         time_first_content_millsec c' = time_first_content_millsec c"
  using assms by (auto simp: reasoning_delta_def Let_def split: if_splits)

lemma reasoning_done_buffer:
  assumes "reasoning_done (c, l) ch = (c', l', evs)"
  shows "thinking_trace (thinkingContent l) evs = Some (thinkingContent l') \<and>
         content_acc l' = content_acc l \<and>
         ((evs = [] \<and> thinkingContent l' = thinkingContent l \<and>
           time_first_content_millsec c' = time_first_content_millsec c) \<or>
          (evs = [THINKING_COMPLETE (thinkingContent l) (currentTime ch - time_first_token_millsec c')] \<and>
           thinkingContent l' = [] \<and> time_first_content_millsec c = 0 \<and>
           time_first_content_millsec c' = currentTime ch))"
proof -
  obtain b c1 where j: "isReasoningJustDone c (delta_of ch) = (b, c1)"
    by (cases "isReasoningJustDone c (delta_of ch)")
  from isReasoningJustDone_times [OF j] assms j show ?thesis
    by (auto simp: reasoning_done_def Let_def split: if_splits)
qed

lemma text_content_buffer:
  assumes "text_content e (c, l) ch = Inr (c', l', evs)"
  shows "thinking_trace buf evs = Some buf \<and> filter is_thinking_complete evs = [] \<and>
         thinkingContent l' = thinkingContent l \<and>
         (content_acc l' \<noteq> content_acc l \<longrightarrow> chunk_has_content ch) \<and>
         time_first_content_millsec c' = time_first_content_millsec c"
  using assms
  by (auto simp: text_content_def chunk_has_content_def Let_def
      split: option.splits if_splits sum.splits)

lemma finish_buffer:
  assumes "finish e (c, l) ch = (c', l', evs)"
  shows "thinking_trace buf evs = Some buf \<and> filter is_thinking_complete evs = [] \<and>
         thinkingContent l' = thinkingContent l \<and> content_acc l' = content_acc l \<and> c' = c"
  using assms thinking_trace_silent [OF web_search_events_no_thinking, of buf e ch]
  by (auto simp: finish_def split: if_splits)

lemma chunk_step_buffer:
  assumes "chunk_step e (c, l) ch = Inr (c', l', evs)"
  shows "thinking_trace (thinkingContent l) evs = Some (thinkingContent l') \<and>
         (filter is_thinking_complete evs \<noteq> [] \<longrightarrow> thinkingContent l' = []) \<and>
         (content_acc l' \<noteq> content_acc l \<longrightarrow> chunk_has_content ch) \<and>
         (length (thinkingContent l) < length (thinkingContent l') \<longrightarrow>
            truthy (reasoningContent_of ch)) \<and>
         (time_first_content_millsec c \<noteq> 0 \<longrightarrow> filter is_thinking_complete evs = []) \<and>
         length (filter is_thinking_complete evs) \<le> 1 \<and>
         (filter is_thinking_complete evs \<noteq> [] \<longrightarrow> time_first_content_millsec c' = currentTime ch)"
proof -
  from assms obtain c0 l0 c1 l1 ev1 c2 l2 ev2 c3 l3 ev3 ev4 where
    s: "latch_first_token e (c, l) ch = (c0, l0)"
    "reasoning_delta (c0, l0) ch = (c1, l1, ev1)"
    "reasoning_done (c1, l1) ch = (c2, l2, ev2)"
    "text_content e (c2, l2) ch = Inr (c3, l3, ev3)"
    "finish e (c3, l3) ch = (c', l', ev4)"
    "evs = ev1 @ ev2 @ ev3 @ ev4"
    by (rule chunk_step_phases)
  note f0 = latch_first_token_locals [OF s(1)] latch_first_token_times [OF s(1)]
  note f1 = reasoning_delta_buffer [OF s(2)]
  note f2 = reasoning_done_buffer [OF s(3)]
  note f3 = text_content_buffer [OF s(4)]
  note f4 = finish_buffer [OF s(5)]
  have trace: "thinking_trace (thinkingContent l) evs = Some (thinkingContent l')"
    using f0 f1 f2 f3 [of "thinkingContent l2"] f4 [of "thinkingContent l3"] s(6)
    by (simp add: thinking_trace_append)
  have count: "filter is_thinking_complete evs = filter is_thinking_complete ev2"
    using f1 f3 [of "[]"] f4 [of "[]"] s(6) by simp
  from f2 have "ev2 = [] \<or> (\<exists>t m. ev2 = [THINKING_COMPLETE t m])" by blast
  then have le: "length (filter is_thinking_complete ev2) \<le> 1" by auto
  have cleared: "filter is_thinking_complete ev2 \<noteq> [] \<longrightarrow> thinkingContent l' = []"
    using f2 f3 [of "[]"] f4 [of "[]"] by auto
  have latched: "filter is_thinking_complete ev2 \<noteq> [] \<longrightarrow>
      time_first_content_millsec c' = currentTime ch \<and> time_first_content_millsec c = 0"
    using f0 f1 f2 f3 [of "[]"] f4 [of "[]"] by auto
  have content: "content_acc l' \<noteq> content_acc l \<longrightarrow> chunk_has_content ch"
    using f0 f1 f2 f3 [of "[]"] f4 [of "[]"] by auto
  have grows: "length (thinkingContent l) < length (thinkingContent l') \<longrightarrow>
      truthy (reasoningContent_of ch)"
    using f0 f1 f2 f3 [of "[]"] f4 [of "[]"] by auto
  from trace count le cleared latched content grows show ?thesis by auto
qed

lemma stream_loop_buffer:
  assumes "stream_loop e (c, l) chunks = Inr (c', l', evs)"
  shows "thinking_trace (thinkingContent l) evs = Some (thinkingContent l')"
  using assms
proof (induction chunks arbitrary: c l evs)
  case Nil
  then show ?case by simp
next
  case (Cons ch rest)
  show ?case
  proof (cases "paused ch")
    case True
    with Cons.prems show ?thesis by simp
  next
    case False
    from Cons.prems False obtain c1 l1 ev1 ev2 where
      step: "chunk_step e (c, l) ch = Inr (c1, l1, ev1)" and
      rest: "stream_loop e (c1, l1) rest = Inr (c', l', ev2)" and
      evs: "evs = ev1 @ ev2"
      by (rule stream_loop_Cons)
    from chunk_step_buffer [OF step] Cons.IH [OF rest] evs show ?thesis
      by (simp add: thinking_trace_append)
  qed
qed

lemma stream_loop_single_complete:
  assumes "stream_loop e (c, l) chunks = Inr (c', l', evs)"
    and "\<forall>ch \<in> set chunks. currentTime ch \<noteq> 0"
  shows "length (filter is_thinking_complete evs) \<le> 1 \<and>
         (time_first_content_millsec c \<noteq> 0 \<longrightarrow> filter is_thinking_complete evs = [])"
  using assms
proof (induction chunks arbitrary: c l evs)
  case Nil
  then show ?case by simp
next
  case (Cons ch rest)
  show ?case
  proof (cases "paused ch")
    case True
    with Cons.prems show ?thesis by simp
  next
    case False
    from Cons.prems(1) False obtain c1 l1 ev1 ev2 where
      step: "chunk_step e (c, l) ch = Inr (c1, l1, ev1)" and
      rest: "stream_loop e (c1, l1) rest = Inr (c', l', ev2)" and
      evs: "evs = ev1 @ ev2"
      by (rule stream_loop_Cons)
    from Cons.prems(2) have now: "currentTime ch \<noteq> 0" and later: "\<forall>ch \<in> set rest. currentTime ch \<noteq> 0"
      by simp_all
    note st = chunk_step_buffer [OF step] chunk_step_times [OF step]
    note ih = Cons.IH [OF rest later]
    show ?thesis
    proof (cases "filter is_thinking_complete ev1 = []")
      case True
      with st ih evs show ?thesis by auto
    next
      case False
      with st now have "time_first_content_millsec c1 \<noteq> 0" by simp
      with ih have "filter is_thinking_complete ev2 = []" by simp
      with st evs show ?thesis by auto
    qed
  qed
qed

text \<open>
  C6, as stated, fails: a chunk that carries reasoning text and answer text appends to
  both buffers. After a first such chunk the reasoning buffer is empty and the answer
  buffer holds c1; the second one leaves r2 in the one and c1c2 in the other.
\<close>

theorem buffers_not_exclusive_counterexample:
  "map_sum id buffers
     (stream_loop quiet_env (initial_closure quiet_env [], initial_locals)
        [both_chunk ''r1'' ''c1'' 105]) = Inr ('''', ''c1'') \<and>
   map_sum id buffers
     (stream_loop quiet_env (initial_closure quiet_env [], initial_locals)
        [both_chunk ''r1'' ''c1'' 105, both_chunk ''r2'' ''c2'' 106]) = Inr (''r2'', ''c1c2'')"
  by (simp add: env_defs chunk_defs scenario_defs)

text \<open>
  C6, amended. The two buffers are not exclusive, but each grows only on a chunk that
  carries text of its kind. In a round whose clock readings are not 0, a thinking-complete
  event is the only one of the round, its text is the concatenation, in order, of the texts
  of all thinking-delta events before it, and the reasoning buffer, emptied by the step
  that emits it, holds at the end of the round the reasoning text that came after it.
\<close>

theorem reasoning_buffer_trace:
  "(stream_loop e (c, initial_locals) chunks = Inr (c', l', pre @ THINKING_COMPLETE txt ms # post) \<and>
    (\<forall>ch \<in> set chunks. currentTime ch \<noteq> 0) \<longrightarrow>
      txt = concat (map thinking_delta_text pre) \<and>
      (\<forall>ev \<in> set (pre @ post). \<not> is_thinking_complete ev) \<and>
      thinkingContent l' = concat (map thinking_delta_text post)) \<and>
   (chunk_step e (c0, l0) ch = Inr (c1, l1, evs) \<longrightarrow>
      (filter is_thinking_complete evs \<noteq> [] \<longrightarrow> thinkingContent l1 = []) \<and>
      (content_acc l1 \<noteq> content_acc l0 \<longrightarrow> chunk_has_content ch) \<and>
      (length (thinkingContent l0) < length (thinkingContent l1) \<longrightarrow>
         truthy (reasoningContent_of ch)))"
proof (intro conjI impI)
  assume a: "stream_loop e (c, initial_locals) chunks =
               Inr (c', l', pre @ THINKING_COMPLETE txt ms # post) \<and>
             (\<forall>ch \<in> set chunks. currentTime ch \<noteq> 0)"
  then have loop: "stream_loop e (c, initial_locals) chunks =
               Inr (c', l', pre @ THINKING_COMPLETE txt ms # post)"
    and times: "\<forall>ch \<in> set chunks. currentTime ch \<noteq> 0"
    by simp_all
  from stream_loop_single_complete [OF loop times]
  have single: "filter is_thinking_complete pre = []" "filter is_thinking_complete post = []"
    by simp_all
  from stream_loop_buffer [OF loop]
  have trace: "thinking_trace [] (pre @ THINKING_COMPLETE txt ms # post) = Some (thinkingContent l')"
    by (simp add: initial_locals_def)
  from thinking_trace_split [OF trace single(1)]
  have carried: "txt = concat (map thinking_delta_text pre)"
    and post: "thinking_trace [] post = Some (thinkingContent l')"
    by simp_all
  show "txt = concat (map thinking_delta_text pre)" by (rule carried)
  show "\<forall>ev \<in> set (pre @ post). \<not> is_thinking_complete ev"
    using single by (auto simp: filter_empty_conv)
  show "thinkingContent l' = concat (map thinking_delta_text post)"
    using post thinking_trace_plain [OF single(2), of "[]"] by simp
next
  assume step: "chunk_step e (c0, l0) ch = Inr (c1, l1, evs)"
  note st = chunk_step_buffer [OF step]
  from st show "thinkingContent l1 = []" if "filter is_thinking_complete evs \<noteq> []"
    using that by simp
  from st show "chunk_has_content ch" if "content_acc l1 \<noteq> content_acc l0"
    using that by simp
  from st show "truthy (reasoningContent_of ch)"
    if "length (thinkingContent l0) < length (thinkingContent l1)"
    using that by simp
qed

theorem reasoning_buffer_trace_witness:
  "map_sum id (\<lambda>s. snd (snd s))
     (stream_loop quiet_env (initial_closure quiet_env [], initial_locals)
       [reasoning_chunk ''think1'' 101, reasoning_chunk ''think2'' 102,
        content_chunk ''Answer'' 105, finish_chunk None 106]) =
   Inr ([THINKING_DELTA ''think1'' 0, THINKING_DELTA ''think2'' 1] @
        THINKING_COMPLETE ''think1think2'' 4 # [TEXT_DELTA ''Answer'', TEXT_COMPLETE ''Answer'']) \<and>
   ''think1think2'' =
     concat (map thinking_delta_text [THINKING_DELTA ''think1'' 0, THINKING_DELTA ''think2'' 1])"
proof -
  obtain c' l' where loop:
    "stream_loop quiet_env (initial_closure quiet_env [], initial_locals)
       [reasoning_chunk ''think1'' 101, reasoning_chunk ''think2'' 102,
        content_chunk ''Answer'' 105, finish_chunk None 106] =
     Inr (c', l', [THINKING_DELTA ''think1'' 0, THINKING_DELTA ''think2'' 1] @
        THINKING_COMPLETE ''think1think2'' 4 # [TEXT_DELTA ''Answer'', TEXT_COMPLETE ''Answer''])"
    by (simp add: env_defs chunk_defs scenario_defs)
  have times: "\<forall>ch \<in> set [reasoning_chunk ''think1'' 101, reasoning_chunk ''think2'' 102,
        content_chunk ''Answer'' 105, finish_chunk None 106]. currentTime ch \<noteq> 0"
    by (simp add: scenario_defs)
  note inst = reasoning_buffer_trace
    [of quiet_env "initial_closure quiet_env []"
        "[reasoning_chunk ''think1'' 101, reasoning_chunk ''think2'' 102,
          content_chunk ''Answer'' 105, finish_chunk None 106]"
        c' l' "[THINKING_DELTA ''think1'' 0, THINKING_DELTA ''think2'' 1]"
        "''think1think2''" 4 "[TEXT_DELTA ''Answer'', TEXT_COMPLETE ''Answer'']",
      THEN conjunct1, THEN mp, OF conjI, OF loop times]
  then have carried: "''think1think2'' =
     concat (map thinking_delta_text [THINKING_DELTA ''think1'' 0, THINKING_DELTA ''think2'' 1])"
    by (rule conjunct1)
  have "map_sum id (\<lambda>s. snd (snd s))
     (stream_loop quiet_env (initial_closure quiet_env [], initial_locals)
       [reasoning_chunk ''think1'' 101, reasoning_chunk ''think2'' 102,
        content_chunk ''Answer'' 105, finish_chunk None 106]) =
   Inr ([THINKING_DELTA ''think1'' 0, THINKING_DELTA ''think2'' 1] @
        THINKING_COMPLETE ''think1think2'' 4 # [TEXT_DELTA ''Answer'', TEXT_COMPLETE ''Answer''])"
    unfolding loop by simp
  with carried show ?thesis by (rule conjI [rotated])
qed

subsection \<open>The end of a round\<close>

lemma processStream_returns:
  assumes "processStream e c stream idx = Some (Inr (c', evs))"
  obtains
    (non_streaming) "\<not> streamOutput e" "non_streaming e c stream = Inr (c', evs)"
  | (no_tools) chunks c1 l evs1 c2 tool_evs where
      "streamOutput e" "stream = Stream chunks"
      "stream_loop e (c, initial_locals) chunks = Inr (c1, l, evs1)"
      "tool_request e c1 (content_acc l) idx = (c2, tool_evs, None)"
      "c' = reset_timestamps c2" "evs = evs1 @ tool_evs @ [block_complete c2 l]"
  | (tools) chunks c1 l evs1 c2 tool_evs newStream c3 round_evs where
      "streamOutput e" "stream = Stream chunks"
      "stream_loop e (c, initial_locals) chunks = Inr (c1, l, evs1)"
      "tool_request e c1 (content_acc l) idx = (c2, tool_evs, Some (Inr newStream))"
      "processStream e c2 newStream (idx + 1) = Some (Inr (c3, round_evs))"
      "c' = reset_timestamps c3" "evs = evs1 @ tool_evs @ round_evs @ [block_complete c3 l]"
proof (cases "streamOutput e")
  case False
  with assms have "non_streaming e c stream = Inr (c', evs)"
    by (subst (asm) processStream.simps) simp
  with False show thesis by (rule non_streaming)
next
  case True
  with assms obtain chunks where st: "stream = Stream chunks"
    by (subst (asm) processStream.simps) (cases stream, auto)
  from assms True st obtain c1 l evs1
    where loop: "stream_loop e (c, initial_locals) chunks = Inr (c1, l, evs1)"
    by (subst (asm) processStream.simps) (auto split: sum.splits)
  obtain c2 tool_evs nxt where tr: "tool_request e c1 (content_acc l) idx = (c2, tool_evs, nxt)"
    by (cases "tool_request e c1 (content_acc l) idx")
  show thesis
  proof (cases nxt)
    case None
    with assms True st loop tr
    have "c' = reset_timestamps c2" "evs = evs1 @ tool_evs @ [block_complete c2 l]"
      by (simp_all add: processStream_no_tools)
    with True st loop tr None show thesis by (intro no_tools) simp_all
  next
    case (Some r)
    show thesis
    proof (cases r)
      case (Inl err)
      with assms True st loop tr Some show thesis
        by (subst (asm) processStream.simps) simp
    next
      case (Inr newStream)
      with tr Some have tr': "tool_request e c1 (content_acc l) idx =
          (c2, tool_evs, Some (Inr newStream))"
        by simp
      from assms [unfolded st processStream_tools [OF True loop tr']]
      obtain r' where inner: "processStream e c2 newStream (idx + 1) = Some r'"
        and res: "(case r' of
                    Inl err \<Rightarrow> Some (Inl err)
                  | Inr (c3, round_evs) \<Rightarrow>
                      Some (Inr (reset_timestamps c3,
                                 evs1 @ tool_evs @ round_evs @ [block_complete c3 l]))) =
                  Some (Inr (c', evs))"
        unfolding bind_eq_Some_conv by blast
      from res obtain c3 round_evs where "r' = Inr (c3, round_evs)"
        "c' = reset_timestamps c3" "evs = evs1 @ tool_evs @ round_evs @ [block_complete c3 l]"
        by (cases r') auto
      with inner True st loop tr' show thesis by (intro tools) simp_all
    qed
  qed
qed

lemma non_streaming_events:
  assumes "non_streaming e c stream = Inr (c', evs)"
  shows "\<exists>r m. stream = Completion r \<and> evs \<noteq> [] \<and> last evs = BLOCK_COMPLETE (comp_usage r) m \<and>
           length (filter is_block_complete evs) = 1"
  using assms
  by (auto simp: non_streaming_def Let_def split: sdk_response.splits list.splits if_splits)

lemma block_complete_usage:
  "\<exists>m. block_complete c l = BLOCK_COMPLETE (lastUsage l) m \<and>
       m_completion_tokens m = map_option completion_tokens (lastUsage l)"
  by (simp add: block_complete_def)

text \<open>The two functions as the source has them: each round hands over to the tool step.\<close>

lemma processStream_processToolUses:
  assumes "streamOutput e"
    and "stream_loop e (c, initial_locals) chunks = Inr (c1, l, evs)"
  shows "processStream e c (Stream chunks) idx =
     Option.bind (processToolUses e c1 (content_acc l) idx)
       (\<lambda>r. case r of
              Inl err \<Rightarrow> Some (Inl err)
            | Inr (c3, tool_evs) \<Rightarrow>
                Some (Inr (reset_timestamps c3, evs @ tool_evs @ [block_complete c3 l])))"
proof -
  obtain c2 tool_evs nxt where tr: "tool_request e c1 (content_acc l) idx = (c2, tool_evs, nxt)"
    by (cases "tool_request e c1 (content_acc l) idx")
  show ?thesis
  proof (cases nxt)
    case None
    with tr assms show ?thesis
      by (simp add: processStream_no_tools processToolUses_def)
  next
    case (Some r)
    show ?thesis
    proof (cases r)
      case (Inl err)
      with tr Some assms show ?thesis
        by (subst processStream.simps) (simp add: processToolUses_def)
    next
      case (Inr newStream)
      with tr Some have tr': "tool_request e c1 (content_acc l) idx =
          (c2, tool_evs, Some (Inr newStream))"
        by simp
      show ?thesis
      proof (cases "processStream e c2 newStream (idx + 1)")
        case None
        with tr' assms show ?thesis
          by (simp add: processStream_tools processToolUses_def)
      next
        case (Some r')
        with tr' assms show ?thesis
          by (cases r') (auto simp: processStream_tools processToolUses_def)
      qed
    qed
  qed
qed

subsection \<open>From one round to the next\<close>

lemma tool_request_shape:
  assumes "tool_request e c text idx = (c2, tool_evs, nxt)"
  shows "tool_evs = tool_events (parseAndCallTools e text (toolResponses c) idx) \<and>
         (\<forall>s. nxt = Some s \<longrightarrow> s = sdk_create e (reqMessages c2)) \<and>
         time_first_token_millsec_delta c2 = time_first_token_millsec_delta c"
  using assms by (auto simp: tool_request_def Let_def split: if_splits)

lemma latch_first_token_delta:
  assumes "latch_first_token e (c, l) ch = (c', l')" and "time_first_token_millsec c \<noteq> 0"
  shows "time_first_token_millsec_delta c' = time_first_token_millsec_delta c"
  using assms by (auto simp: latch_first_token_def split: if_splits)

lemma reasoning_delta_delta:
  assumes "reasoning_delta (c, l) ch = (c', l', evs)"
  shows "time_first_token_millsec_delta c' = time_first_token_millsec_delta c"
  using assms by (auto simp: reasoning_delta_def Let_def split: if_splits)

lemma reasoning_done_delta:
  assumes "reasoning_done (c, l) ch = (c', l', evs)"
  shows "time_first_token_millsec_delta c' = time_first_token_millsec_delta c"
proof -
  obtain b c1 where j: "isReasoningJustDone c (delta_of ch) = (b, c1)"
    by (cases "isReasoningJustDone c (delta_of ch)")
  from isReasoningJustDone_times [OF j] assms j show ?thesis
    by (auto simp: reasoning_done_def Let_def split: if_splits)
qed

lemma text_content_delta:
  assumes "text_content e (c, l) ch = Inr (c', l', evs)" and "time_first_token_millsec c \<noteq> 0"
  shows "time_first_token_millsec_delta c' = time_first_token_millsec_delta c"
  using assms
  by (auto simp: text_content_def Let_def split: option.splits if_splits sum.splits)

lemma chunk_step_delta:
  assumes "chunk_step e (c, l) ch = Inr (c', l', evs)" and "time_first_token_millsec c \<noteq> 0"
  shows "time_first_token_millsec_delta c' = time_first_token_millsec_delta c"
proof -
  from assms(1) obtain c0 l0 c1 l1 ev1 c2 l2 ev2 c3 l3 ev3 ev4 where
    s: "latch_first_token e (c, l) ch = (c0, l0)"
    "reasoning_delta (c0, l0) ch = (c1, l1, ev1)"
    "reasoning_done (c1, l1) ch = (c2, l2, ev2)"
    "text_content e (c2, l2) ch = Inr (c3, l3, ev3)"
    "finish e (c3, l3) ch = (c', l', ev4)"
    "evs = ev1 @ ev2 @ ev3 @ ev4"
    by (rule chunk_step_phases)
  from latch_first_token_times [OF s(1)] reasoning_delta_times [OF s(2)]
    reasoning_done_times [OF s(3)] assms(2)
  have nz: "time_first_token_millsec c2 \<noteq> 0" by simp
  from latch_first_token_delta [OF s(1) assms(2)] reasoning_delta_delta [OF s(2)]
    reasoning_done_delta [OF s(3)] text_content_delta [OF s(4) nz] finish_closure [OF s(5)]
  show ?thesis by simp
qed

lemma stream_loop_delta:
  assumes "stream_loop e (c, l) chunks = Inr (c', l', evs)" and "time_first_token_millsec c \<noteq> 0"
  shows "time_first_token_millsec_delta c' = time_first_token_millsec_delta c"
  using assms
proof (induction chunks arbitrary: c l evs)
  case Nil
  then show ?case by simp
next
  case (Cons ch rest)
  show ?case
  proof (cases "paused ch")
    case True
    with Cons.prems show ?thesis by simp
  next
    case False
    from Cons.prems(1) False obtain c1 l1 ev1 ev2 where
      step: "chunk_step e (c, l) ch = Inr (c1, l1, ev1)" and
      rest: "stream_loop e (c1, l1) rest = Inr (c', l', ev2)"
      by (rule stream_loop_Cons)
    from chunk_step_times [OF step] Cons.prems(2)
    have nz: "time_first_token_millsec c1 \<noteq> 0" by simp
    from chunk_step_delta [OF step Cons.prems(2)] Cons.IH [OF rest nz] show ?thesis by simp
  qed
qed

lemma stream_loop_latches:
  assumes "stream_loop e (c, l) chunks = Inr (c', l', evs)"
    and "\<forall>ch \<in> set chunks. currentTime ch \<noteq> 0"
    and "filter is_thinking_complete evs \<noteq> []"
  shows "time_first_content_millsec c' \<noteq> 0"
  using assms
proof (induction chunks arbitrary: c l evs)
  case Nil
  then show ?case by simp
next
  case (Cons ch rest)
  show ?case
  proof (cases "paused ch")
    case True
    with Cons.prems show ?thesis by simp
  next
    case False
    from Cons.prems(1) False obtain c1 l1 ev1 ev2 where
      step: "chunk_step e (c, l) ch = Inr (c1, l1, ev1)" and
      rest: "stream_loop e (c1, l1) rest = Inr (c', l', ev2)" and
      evs: "evs = ev1 @ ev2"
      by (rule stream_loop_Cons)
    from Cons.prems(2) have now: "currentTime ch \<noteq> 0"
      and later: "\<forall>ch \<in> set rest. currentTime ch \<noteq> 0"
      by simp_all
    show ?thesis
    proof (cases "filter is_thinking_complete ev1 = []")
      case True
      with Cons.prems(3) evs have "filter is_thinking_complete ev2 \<noteq> []" by simp
      from Cons.IH [OF rest later this] show ?thesis .
    next
      case False
      with chunk_step_buffer [OF step] now have "time_first_content_millsec c1 \<noteq> 0" by simp
      with stream_loop_times [OF rest] show ?thesis by simp
    qed
  qed
qed

lemma block_complete_not_thinking: "\<not> is_thinking_complete (block_complete c l)"
  by (simp add: block_complete_def)

lemma block_complete_is_block: "is_block_complete (block_complete c l)"
  by (simp add: block_complete_def)

lemma block_complete_first_token:
  "block_complete c l = BLOCK_COMPLETE u m \<Longrightarrow>
     m_time_first_token_millsec m = time_first_token_millsec_delta c"
  by (auto simp: block_complete_def)

lemma stream_loop_no_complete:
  assumes "stream_loop e (c, l) chunks = Inr (c', l', evs)"
    and "time_first_content_millsec c \<noteq> 0"
  shows "filter is_thinking_complete evs = []"
  using assms
proof (induction chunks arbitrary: c l evs)
  case Nil
  then show ?case by simp
next
  case (Cons ch rest)
  show ?case
  proof (cases "paused ch")
    case True
    with Cons.prems show ?thesis by simp
  next
    case False
    from Cons.prems(1) False obtain c1 l1 ev1 ev2 where
      step: "chunk_step e (c, l) ch = Inr (c1, l1, ev1)" and
      rest: "stream_loop e (c1, l1) rest = Inr (c', l', ev2)" and
      evs: "evs = ev1 @ ev2"
      by (rule stream_loop_Cons)
    from chunk_step_times [OF step] Cons.prems(2)
    have nz: "time_first_content_millsec c1 \<noteq> 0" by simp
    from chunk_step_buffer [OF step] Cons.prems(2) Cons.IH [OF rest nz] evs
    show ?thesis by simp
  qed
qed

lemma processStream_no_later_complete:
  assumes "processStream e c stream idx = Some (Inr (c', evs))"
    and "\<forall>text rs i. filter is_thinking_complete (tool_events (parseAndCallTools e text rs i)) = []"
    and "time_first_content_millsec c \<noteq> 0"
  shows "filter is_thinking_complete evs = []"
  using assms
proof (induction "length evs" arbitrary: c stream idx c' evs rule: less_induct)
  case less
  note quiet = less.prems(2) and nz = less.prems(3)
  from less.prems(1) show ?case
  proof (cases rule: processStream_returns)
    case non_streaming
    then show ?thesis
      by (auto simp: non_streaming_def Let_def split: sdk_response.splits list.splits if_splits)
  next
    case (no_tools chunks c1 l evs1 c2 tool_evs)
    from stream_loop_no_complete [OF no_tools(3) nz] tool_request_shape [OF no_tools(4)] quiet
      no_tools(6) block_complete_not_thinking
    show ?thesis by simp
  next
    case (tools chunks c1 l evs1 c2 tool_evs newStream c3 round_evs)
    from stream_loop_times [OF tools(3)] tool_request_times [OF tools(4)] nz
    have nz2: "time_first_content_millsec c2 \<noteq> 0" by simp
    have "length round_evs < length evs" using tools(7) by simp
    from less.hyps [OF this tools(5) quiet nz2]
    have "filter is_thinking_complete round_evs = []" .
    with stream_loop_no_complete [OF tools(3) nz] tool_request_shape [OF tools(4)] quiet
      tools(7) block_complete_not_thinking
    show ?thesis by simp
  qed
qed

lemma processStream_one_complete:
  assumes "processStream e c stream idx = Some (Inr (c', evs))"
    and quiet: "\<forall>text rs i.
           filter is_thinking_complete (tool_events (parseAndCallTools e text rs i)) = []"
    and sdk: "\<forall>ms chunks. sdk_create e ms = Inr (Stream chunks) \<longrightarrow>
           (\<forall>ch \<in> set chunks. currentTime ch \<noteq> 0)"
    and "\<forall>chunks. stream = Stream chunks \<longrightarrow> (\<forall>ch \<in> set chunks. currentTime ch \<noteq> 0)"
  shows "length (filter is_thinking_complete evs) \<le> 1"
  using assms(1,4)
proof (induction "length evs" arbitrary: c stream idx c' evs rule: less_induct)
  case less
  note now = less.prems(2)
  from less.prems(1) show ?case
  proof (cases rule: processStream_returns)
    case non_streaming
    then show ?thesis
      by (auto simp: non_streaming_def Let_def split: sdk_response.splits list.splits if_splits)
  next
    case (no_tools chunks c1 l evs1 c2 tool_evs)
    from no_tools(2) now have clk: "\<forall>ch \<in> set chunks. currentTime ch \<noteq> 0" by simp
    from stream_loop_single_complete [OF no_tools(3) clk] tool_request_shape [OF no_tools(4)]
      quiet no_tools(6) block_complete_not_thinking
    show ?thesis by simp
  next
    case (tools chunks c1 l evs1 c2 tool_evs newStream c3 round_evs)
    from tools(2) now have clk: "\<forall>ch \<in> set chunks. currentTime ch \<noteq> 0" by simp
    note first = stream_loop_single_complete [OF tools(3) clk]
    have tev: "filter is_thinking_complete tool_evs = []"
      using tool_request_shape [OF tools(4)] quiet by simp
    have "sdk_create e (reqMessages c2) = Inr newStream"
      using tool_request_shape [OF tools(4)] by simp
    with sdk have later:
      "\<forall>chunks. newStream = Stream chunks \<longrightarrow> (\<forall>ch \<in> set chunks. currentTime ch \<noteq> 0)"
      by blast
    have shorter: "length round_evs < length evs" using tools(7) by simp
    show ?thesis
    proof (cases "filter is_thinking_complete evs1 = []")
      case False
      from stream_loop_latches [OF tools(3) clk False] tool_request_times [OF tools(4)]
      have "time_first_content_millsec c2 \<noteq> 0" by simp
      from processStream_no_later_complete [OF tools(5) quiet this]
      have "filter is_thinking_complete round_evs = []" .
      with first tev tools(7) block_complete_not_thinking show ?thesis by simp
    next
      case True
      from less.hyps [OF shorter tools(5) later]
      have "length (filter is_thinking_complete round_evs) \<le> 1" .
      with True tev tools(7) block_complete_not_thinking show ?thesis by simp
    qed
  qed
qed

lemma processStream_first_token_delta:
  assumes "processStream e c stream idx = Some (Inr (c', evs))"
    and "streamOutput e"
    and noblock: "\<forall>text rs i.
           filter is_block_complete (tool_events (parseAndCallTools e text rs i)) = []"
    and "time_first_token_millsec c \<noteq> 0"
  shows "time_first_token_millsec_delta c' = time_first_token_millsec_delta c \<and>
         (\<forall>u m. BLOCK_COMPLETE u m \<in> set evs \<longrightarrow>
            m_time_first_token_millsec m = time_first_token_millsec_delta c)"
  using assms(1,4)
proof (induction "length evs" arbitrary: c stream idx c' evs rule: less_induct)
  case less
  note nz = less.prems(2)
  from less.prems(1) show ?case
  proof (cases rule: processStream_returns)
    case non_streaming
    with assms(2) show ?thesis by simp
  next
    case (no_tools chunks c1 l evs1 c2 tool_evs)
    have d: "time_first_token_millsec_delta c2 = time_first_token_millsec_delta c"
      using stream_loop_delta [OF no_tools(3) nz] tool_request_shape [OF no_tools(4)] by simp
    have nb: "\<forall>ev \<in> set (evs1 @ tool_evs). \<not> is_block_complete ev"
      using stream_loop_usage [OF no_tools(3)] tool_request_shape [OF no_tools(4)] noblock
      by (auto simp: filter_empty_conv)
    have own: "\<forall>u m. block_complete c2 l = BLOCK_COMPLETE u m \<longrightarrow>
        m_time_first_token_millsec m = time_first_token_millsec_delta c"
      using block_complete_first_token [of c2 l] d by simp
    show ?thesis
    proof (intro conjI allI impI)
      show "time_first_token_millsec_delta c' = time_first_token_millsec_delta c"
        using no_tools(5) d by (simp add: reset_timestamps_def)
    next
      fix u m
      assume "BLOCK_COMPLETE u m \<in> set evs"
      with no_tools(6) have "BLOCK_COMPLETE u m \<in> set (evs1 @ tool_evs) \<or>
          block_complete c2 l = BLOCK_COMPLETE u m"
        by auto
      then show "m_time_first_token_millsec m = time_first_token_millsec_delta c"
      proof
        assume "BLOCK_COMPLETE u m \<in> set (evs1 @ tool_evs)"
        with nb have "\<not> is_block_complete (BLOCK_COMPLETE u m)" by blast
        then show ?thesis by simp
      next
        assume "block_complete c2 l = BLOCK_COMPLETE u m"
        with own show ?thesis by blast
      qed
    qed
  next
    case (tools chunks c1 l evs1 c2 tool_evs newStream c3 round_evs)
    have d: "time_first_token_millsec_delta c2 = time_first_token_millsec_delta c"
      using stream_loop_delta [OF tools(3) nz] tool_request_shape [OF tools(4)] by simp
    have nz2: "time_first_token_millsec c2 \<noteq> 0"
      using stream_loop_times [OF tools(3)] tool_request_times [OF tools(4)] nz by simp
    have shorter: "length round_evs < length evs" using tools(7) by simp
    note ih = less.hyps [OF shorter tools(5) nz2]
    have nb: "\<forall>ev \<in> set (evs1 @ tool_evs). \<not> is_block_complete ev"
      using stream_loop_usage [OF tools(3)] tool_request_shape [OF tools(4)] noblock
      by (auto simp: filter_empty_conv)
    have own: "\<forall>u m. block_complete c3 l = BLOCK_COMPLETE u m \<longrightarrow>
        m_time_first_token_millsec m = time_first_token_millsec_delta c"
      using block_complete_first_token [of c3 l] ih d by simp
    show ?thesis
    proof (intro conjI allI impI)
      show "time_first_token_millsec_delta c' = time_first_token_millsec_delta c"
        using tools(6) ih d by (simp add: reset_timestamps_def)
    next
      fix u m
      assume "BLOCK_COMPLETE u m \<in> set evs"
      with tools(7) have "BLOCK_COMPLETE u m \<in> set (evs1 @ tool_evs) \<or>
          BLOCK_COMPLETE u m \<in> set round_evs \<or> block_complete c3 l = BLOCK_COMPLETE u m"
        by auto
      then show "m_time_first_token_millsec m = time_first_token_millsec_delta c"
      proof (elim disjE)
        assume "BLOCK_COMPLETE u m \<in> set (evs1 @ tool_evs)"
        with nb have "\<not> is_block_complete (BLOCK_COMPLETE u m)" by blast
        then show ?thesis by simp
      next
        assume "BLOCK_COMPLETE u m \<in> set round_evs"
        with ih d show ?thesis by simp
      next
        assume "block_complete c3 l = BLOCK_COMPLETE u m"
        with own show ?thesis by blast
      qed
    qed
  qed
qed

subsection \<open>Block-complete events\<close>

lemma processStream_round_end:
  assumes "processStream e c stream idx = Some (Inr (c', evs))"
  shows "evs \<noteq> [] \<and> is_block_complete (last evs) \<and>
    (streamOutput e \<longrightarrow>
       (\<exists>chunks m. stream = Stream chunks \<and>
          last evs = BLOCK_COMPLETE (usage_at_finish None chunks) m \<and>
          m_completion_tokens m = map_option completion_tokens (usage_at_finish None chunks))) \<and>
    (\<not> streamOutput e \<longrightarrow>
       (\<exists>r m. stream = Completion r \<and> last evs = BLOCK_COMPLETE (comp_usage r) m \<and>
          length (filter is_block_complete evs) = 1)) \<and>
    (\<forall>chunks c1 l evs1 c2 tool_evs.
       streamOutput e \<and> stream = Stream chunks \<and>
       stream_loop e (c, initial_locals) chunks = Inr (c1, l, evs1) \<and>
       tool_request e c1 (content_acc l) idx = (c2, tool_evs, None) \<and>
       filter is_block_complete tool_evs = [] \<longrightarrow>
       length (filter is_block_complete evs) = 1)"
  using assms
proof (cases rule: processStream_returns)
  case non_streaming
  from non_streaming_events [OF non_streaming(2)] non_streaming(1) show ?thesis
    by auto
next
  case (no_tools chunks c1 l evs1 c2 tool_evs)
  from stream_loop_usage [OF no_tools(3)]
  have u: "lastUsage l = usage_at_finish None chunks"
    and nb: "filter is_block_complete evs1 = []"
    by (simp_all add: initial_locals_def filter_empty_conv)
  from block_complete_usage [of c2 l] obtain m where
    m: "block_complete c2 l = BLOCK_COMPLETE (lastUsage l) m"
       "m_completion_tokens m = map_option completion_tokens (lastUsage l)"
    by blast
  from no_tools u nb m show ?thesis by auto
next
  case (tools chunks c1 l evs1 c2 tool_evs newStream c3 round_evs)
  from stream_loop_usage [OF tools(3)]
  have u: "lastUsage l = usage_at_finish None chunks"
    by (simp add: initial_locals_def)
  from block_complete_usage [of c3 l] obtain m where
    m: "block_complete c3 l = BLOCK_COMPLETE (lastUsage l) m"
       "m_completion_tokens m = map_option completion_tokens (lastUsage l)"
    by blast
  from tools u m show ?thesis by auto
qed


lemma processStream_tools_trace:
  assumes run: "processStream e c (Stream chunks) idx = Some (Inr (c', evs))"
    and so: "streamOutput e"
    and loop: "stream_loop e (c, initial_locals) chunks = Inr (c1, l, evs1)"
    and tr: "tool_request e c1 (content_acc l) idx = (c2, tool_evs, Some (Inr newStream))"
  shows "\<exists>c3 round_evs.
           processStream e c2 newStream (idx + 1) = Some (Inr (c3, round_evs)) \<and>
           round_evs \<noteq> [] \<and> is_block_complete (last round_evs) \<and>
           evs = evs1 @ tool_evs @ round_evs @ [block_complete c3 l] \<and>
           (filter is_block_complete tool_evs = [] \<longrightarrow>
              length (filter is_block_complete evs) =
                length (filter is_block_complete round_evs) + 1 \<and>
              2 \<le> length (filter is_block_complete evs))"
proof -
  from run [unfolded processStream_tools [OF so loop tr]]
  obtain r where inner: "processStream e c2 newStream (idx + 1) = Some r"
    and res: "(case r of
                Inl err \<Rightarrow> Some (Inl err)
              | Inr (c3, round_evs) \<Rightarrow>
                  Some (Inr (reset_timestamps c3,
                             evs1 @ tool_evs @ round_evs @ [block_complete c3 l]))) =
              Some (Inr (c', evs))"
    unfolding bind_eq_Some_conv by blast
  from res obtain c3 round_evs where r: "r = Inr (c3, round_evs)"
    and evs: "evs = evs1 @ tool_evs @ round_evs @ [block_complete c3 l]"
    by (cases r) auto
  from inner r have inner': "processStream e c2 newStream (idx + 1) = Some (Inr (c3, round_evs))"
    by simp
  from processStream_round_end [OF inner']
  have ne: "round_evs \<noteq> []" and lb: "is_block_complete (last round_evs)"
    by simp_all
  from ne lb have "last round_evs \<in> set (filter is_block_complete round_evs)"
    by simp
  then have one: "1 \<le> length (filter is_block_complete round_evs)"
    by (cases "filter is_block_complete round_evs") simp_all
  from stream_loop_usage [OF loop]
  have nb: "filter is_block_complete evs1 = []"
    by (simp add: filter_empty_conv)
  have cnt: "length (filter is_block_complete evs) =
      length (filter is_block_complete round_evs) + 1 \<and>
      2 \<le> length (filter is_block_complete evs)"
    if "filter is_block_complete tool_evs = []"
    using that nb one evs block_complete_is_block by simp
  from inner' ne lb evs cnt show ?thesis by blast
qed

text \<open>
  C8, as stated, fails: every round ends with its own block-complete event, so a request
  with one tool round sends two, and the last one carries the usage of the first stream
  (\<open>usage0\<close>), not the usage seen last (\<open>usage1\<close>, on the stream of the second round).
\<close>

theorem two_block_complete_events_counterexample:
  "map_option (map_sum id snd)
     (completions two_round_env [\<lparr>role = User, content = Text ''q''\<rparr>]) =
   Some (Inr
     [LLM_RESPONSE_CREATED, THINKING_DELTA ''r'' 0, THINKING_COMPLETE ''r'' 2,
      TEXT_DELTA ''A'', TEXT_COMPLETE ''A'', MCP_TOOL_EVENT ''t1'',
      TEXT_DELTA ''B'', TEXT_COMPLETE ''B'',
      BLOCK_COMPLETE (Some usage1)
        \<lparr>m_completion_tokens = Some 7, m_time_completion_millsec = 10,
         m_time_first_token_millsec = 5, m_time_thinking_millsec = Some 0\<rparr>,
      BLOCK_COMPLETE (Some usage0)
        \<lparr>m_completion_tokens = Some 3, m_time_completion_millsec = 8,
         m_time_first_token_millsec = 5, m_time_thinking_millsec = Some 2\<rparr>])"
  by (simp add: completions_def processStream.simps env_defs chunk_defs scenario_defs)

text \<open>
  C8, amended. Usage and metrics are attached to the block-complete event that ends each
  round, not once to the request. The trace of a round that returns ends with the
  block-complete event of that round; for a stream, its usage is the usage of the last
  chunk of this round's own stream that carried a finish reason and a usage, and its
  completion tokens are those of that usage. A non-streaming response, and a streaming
  round in which no tool answered and the tools sent no block-complete event, have exactly
  one block-complete event. The trace of a streaming round in which a tool answered is, in
  this order, the events of its own chunks, the events of the tools, the whole trace of the
  recursive round (which ends with that round's block-complete) and its own block-complete;
  when the tools send no block-complete event it has one more block-complete event than
  the recursive round, so at least two.
\<close>

theorem block_complete_ends_round:
  assumes "processStream e c stream idx = Some (Inr (c', evs))"
  shows "evs \<noteq> [] \<and> is_block_complete (last evs) \<and>
    (streamOutput e \<longrightarrow>
       (\<exists>chunks m. stream = Stream chunks \<and>
          last evs = BLOCK_COMPLETE (usage_at_finish None chunks) m \<and>
          m_completion_tokens m = map_option completion_tokens (usage_at_finish None chunks))) \<and>
    (\<not> streamOutput e \<longrightarrow>
       (\<exists>r m. stream = Completion r \<and> last evs = BLOCK_COMPLETE (comp_usage r) m \<and>
          length (filter is_block_complete evs) = 1)) \<and>
    (\<forall>chunks c1 l evs1 c2 tool_evs.
       streamOutput e \<and> stream = Stream chunks \<and>
       stream_loop e (c, initial_locals) chunks = Inr (c1, l, evs1) \<and>
       tool_request e c1 (content_acc l) idx = (c2, tool_evs, None) \<and>
       filter is_block_complete tool_evs = [] \<longrightarrow>
       length (filter is_block_complete evs) = 1) \<and>
    (\<forall>chunks c1 l evs1 c2 tool_evs newStream.
       streamOutput e \<and> stream = Stream chunks \<and>
       stream_loop e (c, initial_locals) chunks = Inr (c1, l, evs1) \<and>
       tool_request e c1 (content_acc l) idx = (c2, tool_evs, Some (Inr newStream)) \<longrightarrow>
       (\<exists>c3 round_evs.
          processStream e c2 newStream (idx + 1) = Some (Inr (c3, round_evs)) \<and>
          round_evs \<noteq> [] \<and> is_block_complete (last round_evs) \<and>
          evs = evs1 @ tool_evs @ round_evs @ [block_complete c3 l] \<and>
          (filter is_block_complete tool_evs = [] \<longrightarrow>
             length (filter is_block_complete evs) =
               length (filter is_block_complete round_evs) + 1 \<and>
             2 \<le> length (filter is_block_complete evs))))"
proof -
  note old = processStream_round_end [OF assms]
  have new: "\<exists>c3 round_evs.
          processStream e c2 newStream (idx + 1) = Some (Inr (c3, round_evs)) \<and>
          round_evs \<noteq> [] \<and> is_block_complete (last round_evs) \<and>
          evs = evs1 @ tool_evs @ round_evs @ [block_complete c3 l] \<and>
          (filter is_block_complete tool_evs = [] \<longrightarrow>
             length (filter is_block_complete evs) =
               length (filter is_block_complete round_evs) + 1 \<and>
             2 \<le> length (filter is_block_complete evs))"
    if "streamOutput e \<and> stream = Stream chunks \<and>
       stream_loop e (c, initial_locals) chunks = Inr (c1, l, evs1) \<and>
       tool_request e c1 (content_acc l) idx = (c2, tool_evs, Some (Inr newStream))"
    for chunks c1 l evs1 c2 tool_evs newStream
  proof -
    from that have so: "streamOutput e" and st: "stream = Stream chunks"
      and loop: "stream_loop e (c, initial_locals) chunks = Inr (c1, l, evs1)"
      and tr: "tool_request e c1 (content_acc l) idx = (c2, tool_evs, Some (Inr newStream))"
      by simp_all
    from assms st have run: "processStream e c (Stream chunks) idx = Some (Inr (c', evs))"
      by simp
    from processStream_tools_trace [OF run so loop tr] show ?thesis .
  qed
  have n: "\<forall>chunks c1 l evs1 c2 tool_evs newStream.
       streamOutput e \<and> stream = Stream chunks \<and>
       stream_loop e (c, initial_locals) chunks = Inr (c1, l, evs1) \<and>
       tool_request e c1 (content_acc l) idx = (c2, tool_evs, Some (Inr newStream)) \<longrightarrow>
       (\<exists>c3 round_evs.
          processStream e c2 newStream (idx + 1) = Some (Inr (c3, round_evs)) \<and>
          round_evs \<noteq> [] \<and> is_block_complete (last round_evs) \<and>
          evs = evs1 @ tool_evs @ round_evs @ [block_complete c3 l] \<and>
          (filter is_block_complete tool_evs = [] \<longrightarrow>
             length (filter is_block_complete evs) =
               length (filter is_block_complete round_evs) + 1 \<and>
             2 \<le> length (filter is_block_complete evs)))"
    by (intro allI impI) (rule new)
  note o1 = old [THEN conjunct1]
    and o2 = old [THEN conjunct2, THEN conjunct1]
    and o3 = old [THEN conjunct2, THEN conjunct2, THEN conjunct1]
    and o4 = old [THEN conjunct2, THEN conjunct2, THEN conjunct2, THEN conjunct1]
    and o5 = old [THEN conjunct2, THEN conjunct2, THEN conjunct2, THEN conjunct2]
  show ?thesis
    by (rule conjI [OF o1 conjI [OF o2 conjI [OF o3 conjI [OF o4 conjI [OF o5 n]]]]])
qed

theorem block_complete_ends_round_witness:
  "\<exists>c' evs m.
     processStream two_round_env (initial_closure two_round_env [\<lparr>role = User, content = Text ''q''\<rparr>])
       (Stream round0_chunks) 0 = Some (Inr (c', evs)) \<and>
     usage_at_finish None round0_chunks = Some usage0 \<and>
     last evs = BLOCK_COMPLETE (Some usage0) m \<and>
     2 \<le> length (filter is_block_complete evs)"
proof -
  have "\<exists>c' evs. processStream two_round_env
       (initial_closure two_round_env [\<lparr>role = User, content = Text ''q''\<rparr>])
       (Stream round0_chunks) 0 = Some (Inr (c', evs))"
    by (simp add: processStream.simps env_defs chunk_defs scenario_defs)
  then obtain c' evs where run:
    "processStream two_round_env (initial_closure two_round_env [\<lparr>role = User, content = Text ''q''\<rparr>])
       (Stream round0_chunks) 0 = Some (Inr (c', evs))"
    by (elim exE)
  have so: "streamOutput two_round_env"
    by (simp add: two_round_env_def quiet_env_def)
  have u: "usage_at_finish None round0_chunks = Some usage0"
    by (simp add: round0_chunks_def scenario_defs finishReason_of_def truthy_def)
  have "\<exists>c1 l evs1. stream_loop two_round_env
       (initial_closure two_round_env [\<lparr>role = User, content = Text ''q''\<rparr>], initial_locals)
       round0_chunks = Inr (c1, l, evs1)"
    by (simp add: env_defs chunk_defs scenario_defs)
  then obtain c1 l evs1 where loop:
    "stream_loop two_round_env
       (initial_closure two_round_env [\<lparr>role = User, content = Text ''q''\<rparr>], initial_locals)
       round0_chunks = Inr (c1, l, evs1)"
    by (elim exE)
  have "toolResults (parseAndCallTools two_round_env (content_acc l) (toolResponses c1) 0) \<noteq> []"
    by (simp add: two_round_env_def quiet_env_def)
  from tool_request_answered [OF this] obtain c2 tool_evs where
    tr0: "tool_request two_round_env c1 (content_acc l) 0 =
           (c2, tool_evs, Some (sdk_create two_round_env (reqMessages c2)))"
    by (elim exE)
  have "\<exists>newStream. sdk_create two_round_env (reqMessages c2) = Inr newStream"
    by (simp add: two_round_env_def quiet_env_def)
  then obtain newStream where ns: "sdk_create two_round_env (reqMessages c2) = Inr newStream"
    by (elim exE)
  have tr: "tool_request two_round_env c1 (content_acc l) 0 = (c2, tool_evs, Some (Inr newStream))"
    unfolding tr0 ns by (rule refl)
  have quiet: "filter is_block_complete tool_evs = []"
    using tool_request_shape [OF tr, THEN conjunct1] by (simp add: two_round_env_def quiet_env_def)
  note inst = block_complete_ends_round [OF run]
  note third = inst [THEN conjunct2, THEN conjunct2, THEN conjunct1, THEN mp, OF so]
  then obtain chunks m where st: "Stream round0_chunks = Stream chunks"
    and lst: "last evs = BLOCK_COMPLETE (usage_at_finish None chunks) m"
    by (elim exE conjE)
  from st have "chunks = round0_chunks" by simp
  with lst u have last: "last evs = BLOCK_COMPLETE (Some usage0) m" by simp
  note n = inst [THEN conjunct2, THEN conjunct2, THEN conjunct2, THEN conjunct2, THEN conjunct2,
    rule_format, OF conjI [OF so conjI [OF refl conjI [OF loop tr]]]]
  then obtain c3 round_evs where
    cnt: "filter is_block_complete tool_evs = [] \<longrightarrow>
             length (filter is_block_complete evs) =
               length (filter is_block_complete round_evs) + 1 \<and>
             2 \<le> length (filter is_block_complete evs)"
    by (elim exE conjE)
  from cnt [THEN mp, OF quiet] have two: "2 \<le> length (filter is_block_complete evs)"
    by (rule conjunct2)
  from run u last two show ?thesis
    by (intro exI [of _ c'] exI [of _ evs] exI [of _ m] conjI)
qed

text \<open>
  C2, as stated, fails: the last statements of every call of \<open>processStream\<close> set both
  timestamps to 0. In the request of two rounds the chunks of round 0 latch them (105 and
  107), and the call of \<open>processToolUses\<close> that runs round 1 returns with both at 0.
\<close>

theorem timestamps_reset_by_later_round_counterexample:
  "map_sum id (\<lambda>s. timestamps (fst s))
     (stream_loop two_round_env
        (initial_closure two_round_env [\<lparr>role = User, content = Text ''q''\<rparr>], initial_locals)
        round0_chunks) = Inr (105, 107) \<and>
   map_option (map_sum id (\<lambda>s. timestamps (fst s)))
     (processToolUses two_round_env
        (fst (projr (stream_loop two_round_env
           (initial_closure two_round_env [\<lparr>role = User, content = Text ''q''\<rparr>], initial_locals)
           round0_chunks)))
        ''A'' 0) = Some (Inr (0, 0))"
  by (simp add: processToolUses_def processStream.simps env_defs chunk_defs scenario_defs)

text \<open>
  C2, amended. Once the first-token or the first-content timestamp is not 0, no chunk
  changes it: not in the same round, and not in a later round of the request. A round in
  which a tool answered continues as the recursive round run from the closure that the
  tool step leaves, with both timestamps as the loop of the round left them. So in a
  request whose first-content timestamp is set, no round at any depth latches it again
  (the latch is what sends thinking-complete: none is sent); for clock readings other
  than 0 a whole request sends at most one thinking-complete event; and in a request whose
  first-token timestamp is set, every block-complete event of every round reports the
  first-token delay the closure held at the start. The timestamps are set back to 0 only
  by the last statements of every streaming call of \<open>processStream\<close>, which run when the
  rounds it started have returned. (The tools are taken to send no thinking-complete and
  no block-complete event of their own.)
\<close>

theorem timestamps_latched_until_round_end:
  "(stream_loop e (c, l) chunks = Inr (c', l', evs) \<longrightarrow>
      (time_first_token_millsec c \<noteq> 0 \<longrightarrow>
         time_first_token_millsec c' = time_first_token_millsec c) \<and>
      (time_first_content_millsec c \<noteq> 0 \<longrightarrow>
         time_first_content_millsec c' = time_first_content_millsec c)) \<and>
   (tool_request e c text idx = (c2, tool_evs, nxt) \<longrightarrow> timestamps c2 = timestamps c) \<and>
   (streamOutput e \<and> processStream e c (Stream chunks) idx = Some (Inr (c3, evs3)) \<longrightarrow>
      timestamps c3 = (0, 0)) \<and>
   (streamOutput e \<and> stream_loop e (c, initial_locals) chunks = Inr (c4, l4, evs4) \<and>
    tool_request e c4 (content_acc l4) idx = (c5, tool_evs5, Some (Inr newStream)) \<longrightarrow>
      timestamps c5 = timestamps c4 \<and>
      processStream e c (Stream chunks) idx =
        Option.bind (processStream e c5 newStream (idx + 1))
          (\<lambda>r. case r of
                 Inl err \<Rightarrow> Some (Inl err)
               | Inr (c6, round_evs) \<Rightarrow>
                   Some (Inr (reset_timestamps c6,
                              evs4 @ tool_evs5 @ round_evs @ [block_complete c6 l4])))) \<and>
   (processStream e c stream idx = Some (Inr (c7, evs7)) \<and>
    (\<forall>text rs i. filter is_thinking_complete (tool_events (parseAndCallTools e text rs i)) = []) \<and>
    time_first_content_millsec c \<noteq> 0 \<longrightarrow>
      filter is_thinking_complete evs7 = []) \<and>
   (processStream e c stream idx = Some (Inr (c7, evs7)) \<and>
    (\<forall>text rs i. filter is_thinking_complete (tool_events (parseAndCallTools e text rs i)) = []) \<and>
    (\<forall>ms chunks. sdk_create e ms = Inr (Stream chunks) \<longrightarrow>
       (\<forall>ch \<in> set chunks. currentTime ch \<noteq> 0)) \<and>
    (\<forall>chunks. stream = Stream chunks \<longrightarrow> (\<forall>ch \<in> set chunks. currentTime ch \<noteq> 0)) \<longrightarrow>
      length (filter is_thinking_complete evs7) \<le> 1) \<and>
   (processStream e c stream idx = Some (Inr (c7, evs7)) \<and> streamOutput e \<and>
    (\<forall>text rs i. filter is_block_complete (tool_events (parseAndCallTools e text rs i)) = []) \<and>
    time_first_token_millsec c \<noteq> 0 \<longrightarrow>
      (\<forall>u m. BLOCK_COMPLETE u m \<in> set evs7 \<longrightarrow>
         m_time_first_token_millsec m = time_first_token_millsec_delta c))"
proof -
  have p1: "stream_loop e (c, l) chunks = Inr (c', l', evs) \<longrightarrow>
      (time_first_token_millsec c \<noteq> 0 \<longrightarrow>
         time_first_token_millsec c' = time_first_token_millsec c) \<and>
      (time_first_content_millsec c \<noteq> 0 \<longrightarrow>
         time_first_content_millsec c' = time_first_content_millsec c)"
    using stream_loop_times by blast
  have p2: "tool_request e c text idx = (c2, tool_evs, nxt) \<longrightarrow> timestamps c2 = timestamps c"
    using tool_request_times [of e c "text" idx c2 tool_evs nxt] by (simp add: timestamps_def)
  have p3: "streamOutput e \<and> processStream e c (Stream chunks) idx = Some (Inr (c3, evs3)) \<longrightarrow>
      timestamps c3 = (0, 0)"
    using processStream_resets [of e c chunks idx c3 evs3] by (simp add: timestamps_def)
  have p4: "streamOutput e \<and> stream_loop e (c, initial_locals) chunks = Inr (c4, l4, evs4) \<and>
    tool_request e c4 (content_acc l4) idx = (c5, tool_evs5, Some (Inr newStream)) \<longrightarrow>
      timestamps c5 = timestamps c4 \<and>
      processStream e c (Stream chunks) idx =
        Option.bind (processStream e c5 newStream (idx + 1))
          (\<lambda>r. case r of
                 Inl err \<Rightarrow> Some (Inl err)
               | Inr (c6, round_evs) \<Rightarrow>
                   Some (Inr (reset_timestamps c6,
                              evs4 @ tool_evs5 @ round_evs @ [block_complete c6 l4])))"
  proof (intro impI, elim conjE, intro conjI)
    assume so: "streamOutput e"
      and loop: "stream_loop e (c, initial_locals) chunks = Inr (c4, l4, evs4)"
      and tr: "tool_request e c4 (content_acc l4) idx = (c5, tool_evs5, Some (Inr newStream))"
    from tool_request_times [OF tr] show "timestamps c5 = timestamps c4"
      by (simp add: timestamps_def)
    show "processStream e c (Stream chunks) idx =
        Option.bind (processStream e c5 newStream (idx + 1))
          (\<lambda>r. case r of
                 Inl err \<Rightarrow> Some (Inl err)
               | Inr (c6, round_evs) \<Rightarrow>
                   Some (Inr (reset_timestamps c6,
                              evs4 @ tool_evs5 @ round_evs @ [block_complete c6 l4])))"
      by (rule processStream_tools [OF so loop tr])
  qed
  have p5: "processStream e c stream idx = Some (Inr (c7, evs7)) \<and>
    (\<forall>text rs i. filter is_thinking_complete (tool_events (parseAndCallTools e text rs i)) = []) \<and>
    time_first_content_millsec c \<noteq> 0 \<longrightarrow>
      filter is_thinking_complete evs7 = []"
    using processStream_no_later_complete [of e c stream idx c7 evs7] by blast
  have p6: "processStream e c stream idx = Some (Inr (c7, evs7)) \<and>
    (\<forall>text rs i. filter is_thinking_complete (tool_events (parseAndCallTools e text rs i)) = []) \<and>
    (\<forall>ms chunks. sdk_create e ms = Inr (Stream chunks) \<longrightarrow>
       (\<forall>ch \<in> set chunks. currentTime ch \<noteq> 0)) \<and>
    (\<forall>chunks. stream = Stream chunks \<longrightarrow> (\<forall>ch \<in> set chunks. currentTime ch \<noteq> 0)) \<longrightarrow>
      length (filter is_thinking_complete evs7) \<le> 1"
    by (intro impI, elim conjE) (rule processStream_one_complete)
  have p7: "processStream e c stream idx = Some (Inr (c7, evs7)) \<and> streamOutput e \<and>
    (\<forall>text rs i. filter is_block_complete (tool_events (parseAndCallTools e text rs i)) = []) \<and>
    time_first_token_millsec c \<noteq> 0 \<longrightarrow>
      (\<forall>u m. BLOCK_COMPLETE u m \<in> set evs7 \<longrightarrow>
         m_time_first_token_millsec m = time_first_token_millsec_delta c)"
  proof (intro impI, elim conjE)
    assume "processStream e c stream idx = Some (Inr (c7, evs7))" "streamOutput e"
      "\<forall>text rs i. filter is_block_complete (tool_events (parseAndCallTools e text rs i)) = []"
      "time_first_token_millsec c \<noteq> 0"
    from processStream_first_token_delta [OF this]
    show "\<forall>u m. BLOCK_COMPLETE u m \<in> set evs7 \<longrightarrow>
         m_time_first_token_millsec m = time_first_token_millsec_delta c"
      by (rule conjunct2)
  qed
  show ?thesis
    by (rule conjI [OF p1 conjI [OF p2 conjI [OF p3 conjI [OF p4 conjI [OF p5 conjI [OF p6 p7]]]]]])
qed

theorem timestamps_latched_until_round_end_witness:
  "\<exists>c' evs.
     processStream reasoning_again_env (initial_closure reasoning_again_env [])
       (Stream round0_chunks) 0 = Some (Inr (c', evs)) \<and>
     length (filter is_thinking_complete evs) \<le> 1 \<and>
     THINKING_DELTA ''r2'' 15 \<in> set evs"
proof -
  have "\<exists>c' evs.
     processStream reasoning_again_env (initial_closure reasoning_again_env [])
       (Stream round0_chunks) 0 = Some (Inr (c', evs)) \<and>
     THINKING_DELTA ''r2'' 15 \<in> set evs"
    by (simp add: processStream.simps reasoning_again_env_def round1_reasoning_chunks_def
        env_defs chunk_defs scenario_defs)
  then obtain c' evs where run:
    "processStream reasoning_again_env (initial_closure reasoning_again_env [])
       (Stream round0_chunks) 0 = Some (Inr (c', evs))"
    and second: "THINKING_DELTA ''r2'' 15 \<in> set evs"
    by (elim exE conjE)
  have quiet: "\<forall>text rs i. filter is_thinking_complete
      (tool_events (parseAndCallTools reasoning_again_env text rs i)) = []"
    by (simp add: reasoning_again_env_def two_round_env_def quiet_env_def)
  have clocks: "\<forall>ms chunks. sdk_create reasoning_again_env ms = Inr (Stream chunks) \<longrightarrow>
       (\<forall>ch \<in> set chunks. currentTime ch \<noteq> 0)"
    by (auto simp: reasoning_again_env_def two_round_env_def quiet_env_def
        round1_reasoning_chunks_def scenario_defs)
  have now: "\<forall>chunks. Stream round0_chunks = Stream chunks \<longrightarrow>
       (\<forall>ch \<in> set chunks. currentTime ch \<noteq> 0)"
    by (auto simp: round0_chunks_def scenario_defs)
  note once = timestamps_latched_until_round_end
    [THEN conjunct2, THEN conjunct2, THEN conjunct2, THEN conjunct2, THEN conjunct2,
     THEN conjunct1, THEN mp, OF conjI [OF run conjI [OF quiet conjI [OF clocks now]]]]
  from run once second show ?thesis
    by (intro exI [of _ c'] exI [of _ evs] conjI)
qed

text \<open>
  C1, as stated, fails: with a tool executor that answers in every round the request never
  returns. There is no round limit and no tool-loop-exhausted error.
\<close>

theorem tool_loop_never_returns_counterexample:
  "completions looping_env [\<lparr>role = User, content = Text ''q''\<rparr>] = None"
proof -
  have so: "streamOutput looping_env"
    and always: "\<forall>text rs i. toolResults (parseAndCallTools looping_env text rs i) \<noteq> []"
    and sdk: "\<forall>ms. sdk_create looping_env ms = Inr (Stream [])"
    by (simp_all add: looping_env_def quiet_env_def)
  show ?thesis
    by (simp add: completions_def Let_def sdk processStream_diverges [OF so always sdk])
qed

text \<open>
  C1, amended. The tool-call loop has no round limit, and no error of the code stands for
  an exhausted loop. With streaming output, a request whose tool executor answers in every
  round never completes: if \<open>processStream\<close> returns at all, it returns an error raised by
  the SDK or while a chunk was handled, and on empty streams it does not return. A round in
  which the executor returns no result ends the recursion.
\<close>

theorem tool_loop_has_no_bound:
  assumes "streamOutput e"
  shows "((\<forall>text rs i. toolResults (parseAndCallTools e text rs i) \<noteq> []) \<longrightarrow>
            (\<forall>r. processStream e c stream idx \<noteq> Some (Inr r))) \<and>
         ((\<forall>text rs i. toolResults (parseAndCallTools e text rs i) \<noteq> []) \<and>
          (\<forall>ms. sdk_create e ms = Inr (Stream [])) \<longrightarrow>
            processStream e c (Stream []) idx = None) \<and>
         (stream_loop e (c, initial_locals) chunks = Inr (c1, l, evs) \<and>
          toolResults (parseAndCallTools e (content_acc l) (toolResponses c1) idx) = [] \<longrightarrow>
            (\<exists>c' evs'. processStream e c (Stream chunks) idx = Some (Inr (c', evs'))))"
proof (intro conjI impI allI)
  fix r
  assume always: "\<forall>text rs i. toolResults (parseAndCallTools e text rs i) \<noteq> []"
  show "processStream e c stream idx \<noteq> Some (Inr r)"
  proof
    assume "processStream e c stream idx = Some (Inr r)"
    from processStream_never_completes [OF this assms always] show False by simp
  qed
next
  assume "(\<forall>text rs i. toolResults (parseAndCallTools e text rs i) \<noteq> []) \<and>
          (\<forall>ms. sdk_create e ms = Inr (Stream []))"
  then show "processStream e c (Stream []) idx = None"
    using processStream_diverges [OF assms] by blast
next
  assume a: "stream_loop e (c, initial_locals) chunks = Inr (c1, l, evs) \<and>
          toolResults (parseAndCallTools e (content_acc l) (toolResponses c1) idx) = []"
  then have loop: "stream_loop e (c, initial_locals) chunks = Inr (c1, l, evs)" by simp
  from a have "toolResults (parseAndCallTools e (content_acc l) (toolResponses c1) idx) = []"
    by simp
  note tr = tool_request_none [OF this]
  from processStream_no_tools [OF assms loop tr]
  show "\<exists>c' evs'. processStream e c (Stream chunks) idx = Some (Inr (c', evs'))"
    by blast
qed

theorem tool_loop_has_no_bound_witness:
  "streamOutput looping_env \<and>
   (\<forall>text rs i. toolResults (parseAndCallTools looping_env text rs i) \<noteq> []) \<and>
   (\<forall>ms. sdk_create looping_env ms = Inr (Stream [])) \<and>
   processStream looping_env (initial_closure looping_env []) (Stream []) 0 = None"
proof -
  have so: "streamOutput looping_env"
    and always: "\<forall>text rs i. toolResults (parseAndCallTools looping_env text rs i) \<noteq> []"
    and sdk: "\<forall>ms. sdk_create looping_env ms = Inr (Stream [])"
    by (simp_all add: looping_env_def quiet_env_def)
  note inst = tool_loop_has_no_bound
    [OF so, of "initial_closure looping_env []" "Stream []" 0,
     THEN conjunct2, THEN conjunct1, THEN mp, OF conjI, OF always sdk]
  with so always sdk show ?thesis by (intro conjI)
qed

section \<open>Properties of the validity check\<close>

lemma check_non_streaming:
  assumes "checkIsCopilot sdk = None"
    and "create_completion sdk
           \<lparr>body_model = model_id m, body_messages = [\<lparr>role = User, content = Text ''hi''\<rparr>],
            body_stream = False\<rparr> = Inr response"
  shows "check sdk (Some m) False =
     (case response of
        None \<Rightarrow> \<lparr>valid = False, error = Some (Error ''Empty response'')\<rparr>
      | Some r \<Rightarrow>
          (case comp_choices r of
             [] \<Rightarrow> \<lparr>valid = False,
                    error = Some (TypeError ''Cannot read properties of undefined (reading message)'')\<rparr>
           | c0 # _ \<Rightarrow>
               (case choice_message c0 of
                  None \<Rightarrow> \<lparr>valid = False, error = Some (Error ''Empty response'')\<rparr>
                | Some msg \<Rightarrow> \<lparr>valid = True, error = None\<rparr>)))"
  using assms
  by (simp add: check_def check_try_def split: option.splits list.splits)

text \<open>
  C7, as stated, fails: a non-streaming response whose first choice has a message object
  without content is reported valid.
\<close>

theorem check_contentless_message_counterexample:
  "msg_content \<lparr>msg_content = None\<rparr> = None \<and>
   check
     \<lparr>checkIsCopilot = None,
      create_completion = (\<lambda>body. Inr (Some
         \<lparr>comp_choices = [\<lparr>choice_message = Some \<lparr>msg_content = None\<rparr>\<rparr>],
          comp_usage = None, comp_time = 0\<rparr>)),
      create_stream = (\<lambda>body. Inr [])\<rparr>
     (Some \<lparr>model_id = ''gpt-4o'', model_provider = ''openai''\<rparr>) False =
   \<lparr>valid = True, error = None\<rparr>"
  by (simp add: check_def check_try_def)

text \<open>
  C7, amended. When \<open>checkIsCopilot\<close> and the request succeed, \<open>check\<close> with
  \<open>stream = false\<close> returns \<open>{valid: false, error: Error('Empty response')}\<close> when the
  response is missing or its first choice has no message object, and
  \<open>{valid: true, error: null}\<close> when the first choice has a message object, whatever its
  content. A response without any choice gives \<open>valid: false\<close> with the TypeError that
  reading the message raised.
\<close>

theorem check_empty_response:
  assumes "checkIsCopilot sdk = None"
    and "create_completion sdk
           \<lparr>body_model = model_id m, body_messages = [\<lparr>role = User, content = Text ''hi''\<rparr>],
            body_stream = False\<rparr> = Inr response"
  shows "(response = None \<or>
          (\<exists>r c0 cs. response = Some r \<and> comp_choices r = c0 # cs \<and> choice_message c0 = None)
          \<longrightarrow> check sdk (Some m) False = \<lparr>valid = False, error = Some (Error ''Empty response'')\<rparr>) \<and>
         ((\<exists>r c0 cs msg. response = Some r \<and> comp_choices r = c0 # cs \<and> choice_message c0 = Some msg)
          \<longrightarrow> check sdk (Some m) False = \<lparr>valid = True, error = None\<rparr>) \<and>
         ((\<exists>r. response = Some r \<and> comp_choices r = [])
          \<longrightarrow> check sdk (Some m) False =
               \<lparr>valid = False,
                error = Some (TypeError ''Cannot read properties of undefined (reading message)'')\<rparr>)"
  using check_non_streaming [OF assms] by auto

theorem check_empty_response_witness:
  "check
     \<lparr>checkIsCopilot = None,
      create_completion = (\<lambda>body. Inr (Some
         \<lparr>comp_choices = [\<lparr>choice_message = None\<rparr>], comp_usage = None, comp_time = 0\<rparr>)),
      create_stream = (\<lambda>body. Inr [])\<rparr>
     (Some \<lparr>model_id = ''gpt-4o'', model_provider = ''openai''\<rparr>) False =
   \<lparr>valid = False, error = Some (Error ''Empty response'')\<rparr>"
  using check_empty_response
    [of "\<lparr>checkIsCopilot = None,
      create_completion = (\<lambda>body. Inr (Some
         \<lparr>comp_choices = [\<lparr>choice_message = None\<rparr>], comp_usage = None, comp_time = 0\<rparr>)),
      create_stream = (\<lambda>body. Inr [])\<rparr>"
        "\<lparr>model_id = ''gpt-4o'', model_provider = ''openai''\<rparr>"
        "Some \<lparr>comp_choices = [\<lparr>choice_message = None\<rparr>], comp_usage = None, comp_time = 0\<rparr>"]
  by simp

end
